theory Spec2Isabelle
  imports Main "HOL-Library.Multiset"
begin

section \<open>Strings\<close>

text \<open>
  A Python \<^verbatim>\<open>str\<close> is a sequence of Unicode code points. A code point is a
  natural number, a string a list of them; \<open>u\<close> turns an ASCII literal into such a list,
  and the other characters of the source's literals are spliced in by number: 10 is
  the line feed, 39 the apostrophe, 201 the capital E with acute accent, 224 the a with
  grave accent, 232 and 233 the e with grave and acute accent, 234 the e with
  circumflex, 238 the i with circumflex, 244 the o with circumflex.
\<close>

type_synonym cp = nat
type_synonym ustr = "cp list"

definition u :: "string \<Rightarrow> ustr" where
  "u s = map of_char s"

definition is_space :: "cp \<Rightarrow> bool" where
  "is_space c \<longleftrightarrow>
     (9 \<le> c \<and> c \<le> 13) \<or> (28 \<le> c \<and> c \<le> 32) \<or> c = 133 \<or> c = 160 \<or> c = 5760 \<or>
     (8192 \<le> c \<and> c \<le> 8202) \<or> c = 8232 \<or> c = 8233 \<or> c = 8239 \<or> c = 8287 \<or> c = 12288"

function sub_ws :: "ustr \<Rightarrow> ustr" where
  "sub_ws [] = []"
| "sub_ws (c # cs) =
     (if is_space c then 32 # sub_ws (dropWhile is_space cs) else c # sub_ws cs)"
  by pat_completeness auto
termination
  by (relation "measure length") (auto simp: length_dropWhile_le less_Suc_eq_le)

definition strip :: "ustr \<Rightarrow> ustr" where
  "strip s = rev (dropWhile is_space (rev (dropWhile is_space s)))"

definition endswith_dot :: "ustr \<Rightarrow> bool" where
  "endswith_dot s \<longleftrightarrow> s \<noteq> [] \<and> last s = 46"

subsection \<open>The cleaner\<close>

text \<open>
  \<open>clean_rule\<close> substitutes one space for every match of the pattern "one or more
  whitespace characters", strips the result, and appends a period unless the text
  already ends with one. \<open>is_space\<close> is the whitespace of Python's \<^verbatim>\<open>str.isspace\<close>, which
  the pattern's whitespace class and \<^verbatim>\<open>strip()\<close> share; \<open>sub_ws\<close> is the substitution;
  32 is the space and 46 the period.
\<close>

definition clean_rule :: "ustr \<Rightarrow> ustr" where
  "clean_rule rule_text =
     (let t = strip (sub_ws rule_text)
      in if \<not> endswith_dot t then t @ [46] else t)"

text \<open>
  What the specification says of a cleaned rule: whitespace only as single spaces
  (\<open>collapsed\<close>), none at either end (\<open>trimmed\<close>), and the number of periods the
  string ends with (\<open>trailing_dots\<close>).
\<close>

fun collapsed :: "ustr \<Rightarrow> bool" where
  "collapsed [] = True"
| "collapsed (c # cs) =
     ((is_space c \<longrightarrow> c = 32 \<and> (cs = [] \<or> \<not> is_space (hd cs))) \<and> collapsed cs)"

definition trimmed :: "ustr \<Rightarrow> bool" where
  "trimmed s \<longleftrightarrow> s = [] \<or> (\<not> is_space (hd s) \<and> \<not> is_space (last s))"

definition trailing_dots :: "ustr \<Rightarrow> nat" where
  "trailing_dots s = length (takeWhile (\<lambda>c. c = 46) (rev s))"


subsection \<open>Other string operations of the source\<close>

text \<open>
  \<^verbatim>\<open>s.startswith(p)\<close>, \<^verbatim>\<open>p in s\<close>, \<^verbatim>\<open>s.split()\<close> (split at whitespace runs, no empty
  words) and \<^verbatim>\<open>s.split(c)\<close> (split at every occurrence of one character, empty pieces
  kept).
\<close>

definition startswith :: "ustr \<Rightarrow> ustr \<Rightarrow> bool" where
  "startswith s p \<longleftrightarrow> take (length p) s = p"

fun contains :: "ustr \<Rightarrow> ustr \<Rightarrow> bool" where
  "contains [] p = (p = [])"
| "contains (x # xs) p = (startswith (x # xs) p \<or> contains xs p)"

function split_ws :: "ustr \<Rightarrow> ustr list" where
  "split_ws s =
     (case dropWhile is_space s of
        [] \<Rightarrow> []
      | c # cs \<Rightarrow> (c # takeWhile (\<lambda>x. \<not> is_space x) cs)
                  # split_ws (dropWhile (\<lambda>x. \<not> is_space x) cs))"
  by pat_completeness auto
termination
proof (relation "measure length", goal_cases)
  case 1
  show ?case by simp
next
  case (2 s c cs)
  have "length (dropWhile (\<lambda>x. \<not> is_space x) cs) \<le> length cs"
    by (rule length_dropWhile_le)
  moreover have "length (c # cs) \<le> length s"
    using length_dropWhile_le [of is_space s] 2 by simp
  ultimately show ?case by simp
qed

declare split_ws.simps [simp del]

fun split_on :: "cp \<Rightarrow> ustr \<Rightarrow> ustr list" where
  "split_on c [] = [[]]"
| "split_on c (x # xs) =
     (if x = c then [] # split_on c xs
      else (case split_on c xs of [] \<Rightarrow> [[x]] | w # ws \<Rightarrow> (x # w) # ws))"

text \<open>
  Decimal formatting, for the format specification \<^verbatim>\<open>03d\<close>: the digits of the number,
  padded with zeros on the left to three characters, a minus sign counting as one of
  them; longer numbers are not cut.
\<close>

function digits :: "nat \<Rightarrow> ustr" where
  "digits n = (if n < 10 then [48 + n] else digits (n div 10) @ [48 + n mod 10])"
  by pat_completeness auto
termination
  by (relation "measure id") auto

definition zfill :: "nat \<Rightarrow> ustr \<Rightarrow> ustr" where
  "zfill w s = replicate (w - length s) 48 @ s"

definition format_03d :: "int \<Rightarrow> ustr" where
  "format_03d i =
     (if i < 0 then 45 # zfill 2 (digits (nat (- i))) else zfill 3 (digits (nat i)))"

section \<open>The Unicode character database\<close>

text \<open>
  Case mapping, word characters and decimal digits are properties of code points that
  Python reads from the Unicode database. They are written out below for ASCII and, for
  case, for the letters of Latin-1 whose case mapping is a single code point 32 away;
  for every other code point they are fields of the parameter \<open>ucd\<close>, so that nothing
  proved here depends on them.
\<close>

record ucd =
  alnum :: "cp \<Rightarrow> bool"
  decimal :: "cp \<Rightarrow> bool"
  str_lower :: "ustr \<Rightarrow> ustr"
  cp_title :: "cp \<Rightarrow> ustr"

definition is_word :: "ucd \<Rightarrow> cp \<Rightarrow> bool" where
  "is_word db c \<longleftrightarrow>
     (if c < 128
      then (48 \<le> c \<and> c \<le> 57) \<or> (65 \<le> c \<and> c \<le> 90) \<or> c = 95 \<or> (97 \<le> c \<and> c \<le> 122)
      else alnum db c)"

definition is_digit :: "ucd \<Rightarrow> cp \<Rightarrow> bool" where
  "is_digit db c \<longleftrightarrow> (if c < 128 then 48 \<le> c \<and> c \<le> 57 else decimal db c)"

definition is_upper_simple :: "cp \<Rightarrow> bool" where
  "is_upper_simple c \<longleftrightarrow> (65 \<le> c \<and> c \<le> 90) \<or> (192 \<le> c \<and> c \<le> 222 \<and> c \<noteq> 215)"

definition is_lower_simple :: "cp \<Rightarrow> bool" where
  "is_lower_simple c \<longleftrightarrow> (97 \<le> c \<and> c \<le> 122) \<or> (224 \<le> c \<and> c \<le> 254 \<and> c \<noteq> 247)"

text \<open>
  \<^verbatim>\<open>s.lower()\<close>: on a string of Latin-1 code points every capital letter moves 32 up and
  nothing else changes. \<^verbatim>\<open>s.capitalize()\<close>: the first character in title case, the rest
  in lower case; below 128 and for the Latin-1 letters other than the sharp s, the
  y with diaeresis and the micro sign, title case is the capital letter 32 down.
\<close>

definition lower :: "ucd \<Rightarrow> ustr \<Rightarrow> ustr" where
  "lower db s =
     (if list_all (\<lambda>c. c < 256) s then map (\<lambda>c. if is_upper_simple c then c + 32 else c) s
      else str_lower db s)"

definition title1 :: "ucd \<Rightarrow> cp \<Rightarrow> ustr" where
  "title1 db c =
     (if is_lower_simple c then [c - 32]
      else if c < 128 \<or> is_upper_simple c then [c]
      else cp_title db c)"

definition capitalize :: "ucd \<Rightarrow> ustr \<Rightarrow> ustr" where
  "capitalize db s = (case s of [] \<Rightarrow> [] | c # cs \<Rightarrow> title1 db c @ lower db cs)"

text \<open>
  Matching under \<^verbatim>\<open>re.IGNORECASE\<close>: \<open>ci c x\<close> says that the pattern character \<open>c\<close> matches
  the text character \<open>x\<close>. A letter matches both of its cases and, as the documentation
  of the flag lists, \<open>i\<close> also matches the dotted capital I (304) and the dotless i
  (305), \<open>s\<close> the long s (383) and \<open>k\<close> the Kelvin sign (8490); the a with ring matches
  the Angstrom sign (8491). A character without case matches itself. The definition
  is meant for the characters of this program's patterns: ASCII and Latin-1.
\<close>

definition ci_extra :: "cp \<Rightarrow> cp list" where
  "ci_extra l =
     (if l = 105 then [304, 305] else if l = 107 then [8490]
      else if l = 115 then [383] else if l = 229 then [8491] else [])"

definition ci_variants :: "cp \<Rightarrow> cp list" where
  "ci_variants c =
     (if is_lower_simple c then [c, c - 32] @ ci_extra c
      else if is_upper_simple c then [c + 32, c] @ ci_extra (c + 32)
      else [c])"

definition ci :: "cp \<Rightarrow> cp \<Rightarrow> bool" where
  "ci c x \<longleftrightarrow> x \<in> set (ci_variants c)"

section \<open>Regular expressions\<close>

text \<open>
  The patterns of the source, as data, and a backtracking matcher for them with the
  priorities of Python's \<^verbatim>\<open>re\<close>: alternatives are tried from left to right, a greedy
  repetition tries the longest continuation first, a lazy one the shortest. Every
  pattern of the source is compiled with \<^verbatim>\<open>re.IGNORECASE\<close>, so literals and character
  sets match through \<open>ci\<close>.

  A character class is the dot (anything but the line feed, 10), whitespace, a decimal
  digit, or a set given by ranges.
\<close>

datatype cls = Dot | Space | Digit | Chars "(cp \<times> cp) list"

fun in_cls :: "ucd \<Rightarrow> cls \<Rightarrow> cp \<Rightarrow> bool" where
  "in_cls db Dot x = (x \<noteq> 10)"
| "in_cls db Space x = is_space x"
| "in_cls db Digit x = is_digit db x"
| "in_cls db (Chars rs) x = list_ex (\<lambda>(lo, hi). list_ex (\<lambda>c. ci c x) [lo..<Suc hi]) rs"

text \<open>
  \<open>Lit\<close> is a literal string, \<open>Bnd\<close> the word boundary, \<open>Star\<close> and \<open>Plus\<close> the greedy
  repetitions of a class, \<open>LazyStar\<close> and \<open>LazyPlus\<close> the lazy ones, \<open>Grp\<close> the capturing
  group (the patterns that capture have one group), \<open>PlusG\<close> the greedy repetition, once
  or more, of a pattern.
\<close>

datatype rx = Lit ustr | Cls cls | Bnd | Seq rx rx | Alt rx rx
  | Star cls | Plus cls | LazyStar cls | LazyPlus cls | Grp rx | PlusG rx

text \<open>
  The matcher is written with continuations. A continuation receives the text read so
  far, reversed (\<open>b\<close>, which starts with the text before the match), the text still to
  read (\<open>xs\<close>) and the content of the group (\<open>g\<close>); it returns \<open>None\<close> to make the
  matcher backtrack.
\<close>

type_synonym 'a cont = "ustr \<Rightarrow> ustr \<Rightarrow> ustr option \<Rightarrow> 'a option"

fun lit :: "ustr \<Rightarrow> ustr \<Rightarrow> ustr \<Rightarrow> (ustr \<times> ustr) option" where
  "lit [] b xs = Some (b, xs)"
| "lit (c # cs) b [] = None"
| "lit (c # cs) b (x # xs) = (if ci c x then lit cs (x # b) xs else None)"

definition one :: "(cp \<Rightarrow> bool) \<Rightarrow> 'a cont \<Rightarrow> 'a cont" where
  "one p k b xs g =
     (case xs of [] \<Rightarrow> None | x # xs' \<Rightarrow> if p x then k (x # b) xs' g else None)"

fun lazy_star :: "(cp \<Rightarrow> bool) \<Rightarrow> 'a cont \<Rightarrow> 'a cont" where
  "lazy_star p k b xs g =
     (case k b xs g of
        Some y \<Rightarrow> Some y
      | None \<Rightarrow> (case xs of
                   [] \<Rightarrow> None
                 | x # xs' \<Rightarrow> if p x then lazy_star p k (x # b) xs' g else None))"

fun greedy_star :: "(cp \<Rightarrow> bool) \<Rightarrow> 'a cont \<Rightarrow> 'a cont" where
  "greedy_star p k b [] g = k b [] g"
| "greedy_star p k b (x # xs) g =
     (if p x
      then (case greedy_star p k (x # b) xs g of
              Some y \<Rightarrow> Some y
            | None \<Rightarrow> k b (x # xs) g)
      else k b (x # xs) g)"

definition at_boundary :: "ucd \<Rightarrow> ustr \<Rightarrow> ustr \<Rightarrow> bool" where
  "at_boundary db b xs \<longleftrightarrow>
     (b \<noteq> [] \<and> is_word db (hd b)) \<noteq> (xs \<noteq> [] \<and> is_word db (hd xs))"

text \<open>
  \<open>rep m n k\<close> runs the matcher \<open>m\<close> once and then, greedily, up to \<open>n\<close> more times before
  it continues with \<open>k\<close>. \<open>PlusG\<close> starts it with the length of the text still to read,
  and a further round is tried only where that many characters or fewer remain, so
  the rounds end with the text.
\<close>

primrec rep :: "('a cont \<Rightarrow> 'a cont) \<Rightarrow> nat \<Rightarrow> 'a cont \<Rightarrow> 'a cont" where
  "rep m 0 k = m k"
| "rep m (Suc n) k =
     m (\<lambda>b xs g. case (if length xs \<le> n then rep m n k b xs g else None) of
                    Some y \<Rightarrow> Some y
                  | None \<Rightarrow> k b xs g)"

primrec rmatch :: "ucd \<Rightarrow> rx \<Rightarrow> 'a cont \<Rightarrow> 'a cont" where
  "rmatch db (Lit s) k =
     (\<lambda>b xs g. case lit s b xs of None \<Rightarrow> None | Some (b', xs') \<Rightarrow> k b' xs' g)"
| "rmatch db (Cls c) k = one (in_cls db c) k"
| "rmatch db Bnd k = (\<lambda>b xs g. if at_boundary db b xs then k b xs g else None)"
| "rmatch db (Seq r1 r2) k = rmatch db r1 (rmatch db r2 k)"
| "rmatch db (Alt r1 r2) k =
     (\<lambda>b xs g. case rmatch db r1 k b xs g of
                  Some y \<Rightarrow> Some y
                | None \<Rightarrow> rmatch db r2 k b xs g)"
| "rmatch db (Star c) k = greedy_star (in_cls db c) k"
| "rmatch db (Plus c) k = one (in_cls db c) (greedy_star (in_cls db c) k)"
| "rmatch db (LazyStar c) k = lazy_star (in_cls db c) k"
| "rmatch db (LazyPlus c) k = one (in_cls db c) (lazy_star (in_cls db c) k)"
| "rmatch db (Grp r) k =
     (\<lambda>b xs g. rmatch db r
        (\<lambda>b' xs' g'. k b' xs' (Some (rev (take (length b' - length b) b')))) b xs g)"
| "rmatch db (PlusG r) k = (\<lambda>b xs g. rep (rmatch db r) (length xs) k b xs g)"

text \<open>
  A match at one position: the text read up to the end of the match, the text after it
  and the group. \<open>group0\<close> is the matched text, \<^verbatim>\<open>match.group()\<close>.
\<close>

definition match_at ::
  "ucd \<Rightarrow> rx \<Rightarrow> ustr \<Rightarrow> ustr \<Rightarrow> (ustr \<times> ustr \<times> ustr option) option" where
  "match_at db r b xs = rmatch db r (\<lambda>b' xs' g. Some (b', xs', g)) b xs None"

definition group0 :: "ustr \<Rightarrow> ustr \<Rightarrow> ustr" where
  "group0 b b' = rev (take (length b' - length b) b')"

text \<open>
  \<^verbatim>\<open>re.finditer\<close>: the matches from left to right, each search starting where the last
  match ended, or one character on after an empty match or a failure.
\<close>

function finditer_from :: "ucd \<Rightarrow> rx \<Rightarrow> ustr \<Rightarrow> ustr \<Rightarrow> ustr list" where
  "finditer_from db r b xs =
     (case match_at db r b xs of
        Some (b', xs', g) \<Rightarrow>
          group0 b b' #
            (if length xs' < length xs then finditer_from db r b' xs'
             else (case xs of [] \<Rightarrow> [] | x # t \<Rightarrow> finditer_from db r (x # b) t))
      | None \<Rightarrow> (case xs of [] \<Rightarrow> [] | x # t \<Rightarrow> finditer_from db r (x # b) t))"
  by pat_completeness auto
termination
  by (relation "measure (\<lambda>(db, r, b, xs). length xs)") auto

declare finditer_from.simps [simp del]

definition finditer :: "ucd \<Rightarrow> rx \<Rightarrow> ustr \<Rightarrow> ustr list" where
  "finditer db r text = finditer_from db r [] text"

text \<open>
  \<^verbatim>\<open>re.search\<close>: the first position with a match; the result is the group of that match
  (\<open>None\<close> inside when the group took no part), or \<open>None\<close> when no position matches.
\<close>

fun search_from :: "ucd \<Rightarrow> rx \<Rightarrow> ustr \<Rightarrow> ustr \<Rightarrow> ustr option option" where
  "search_from db r b xs =
     (case match_at db r b xs of
        Some (b', xs', g) \<Rightarrow> Some g
      | None \<Rightarrow> (case xs of [] \<Rightarrow> None | x # t \<Rightarrow> search_from db r (x # b) t))"

declare search_from.simps [simp del]

definition search :: "ucd \<Rightarrow> rx \<Rightarrow> ustr \<Rightarrow> ustr option option" where
  "search db r text = search_from db r [] text"

text \<open>
  For the proofs: \<open>shape d r m\<close> holds of every text \<open>m\<close> that the matcher can read for the
  pattern \<open>r\<close>. It forgets the priorities, the word boundary and the group, and says
  nothing of \<open>PlusG\<close>.
\<close>

fun shape :: "ucd \<Rightarrow> rx \<Rightarrow> ustr \<Rightarrow> bool" where
  "shape d (Lit s) m = list_all2 ci s m"
| "shape d (Cls c) m = (\<exists>x. m = [x] \<and> in_cls d c x)"
| "shape d Bnd m = (m = [])"
| "shape d (Seq r1 r2) m = (\<exists>m1 m2. m = m1 @ m2 \<and> shape d r1 m1 \<and> shape d r2 m2)"
| "shape d (Alt r1 r2) m = (shape d r1 m \<or> shape d r2 m)"
| "shape d (Star c) m = list_all (in_cls d c) m"
| "shape d (Plus c) m = (m \<noteq> [] \<and> list_all (in_cls d c) m)"
| "shape d (LazyStar c) m = list_all (in_cls d c) m"
| "shape d (LazyPlus c) m = (m \<noteq> [] \<and> list_all (in_cls d c) m)"
| "shape d (Grp r) m = shape d r m"
| "shape d (PlusG r) m = True"

text \<open>
  \<open>shape_at d r b m xs'\<close>: at the position that follows the text \<open>b\<close> (reversed) the
  matcher reads \<open>m\<close> for the pattern \<open>r\<close> and leaves \<open>xs'\<close>.
\<close>

definition shape_at :: "ucd \<Rightarrow> rx \<Rightarrow> ustr \<Rightarrow> ustr \<Rightarrow> ustr \<Rightarrow> bool" where
  "shape_at d r b m xs' \<longleftrightarrow> (\<exists>g. match_at d r b (m @ xs') = Some (rev m @ b, xs', g))"

text \<open>
  \<open>ends_plain m\<close>: the text \<open>m\<close> is not empty and its last character is neither a period
  nor whitespace.
\<close>

definition ends_plain :: "ustr \<Rightarrow> bool" where
  "ends_plain m \<longleftrightarrow> m \<noteq> [] \<and> last m \<noteq> 46 \<and> \<not> is_space (last m)"

section \<open>External collaborators\<close>

text \<open>
  What the program does to the outside is recorded as a list of events: an error shown
  to the user, a configuration of the text-generation service, a request to it (with
  the prompt), a run of the linguistic model (with its input).
\<close>

datatype event = StError ustr | SetupAzure | AzureCall ustr | NlpCall ustr

datatype py_error = ValueError | AttributeError

text \<open>
  A client of the text-generation service answers a prompt with a completion (\<open>Inr\<close>)
  or raises, with the text of the exception (\<open>Inl\<close>). The linguistic model gives the
  sentences of a text and its tokens, each with its part-of-speech tag.
\<close>

type_synonym client = "ustr \<Rightarrow> ustr + ustr"

record nlp_model =
  sents :: "ustr \<Rightarrow> ustr list"
  tokens :: "ustr \<Rightarrow> (ustr \<times> ustr) list"

text \<open>
  The world of one call: the Unicode database, the order in which a Python set of
  strings is iterated (it depends on the hashes of the strings), the client that
  \<^verbatim>\<open>setup_azure_openai\<close> returns, if any, and the number that the random source draws.
\<close>

record world =
  db :: ucd
  set_order :: "ustr list \<Rightarrow> ustr list"
  azure :: "client option"
  draw :: nat

definition setup_azure_openai :: "world \<Rightarrow> client option \<times> event list" where
  "setup_azure_openai w = (azure w, [SetupAzure])"

definition generate_with_azure_openai :: "ustr \<Rightarrow> client \<Rightarrow> ustr option \<times> event list" where
  "generate_with_azure_openai prompt client =
     (case client prompt of
        Inr content \<Rightarrow> (Some (strip content), [AzureCall prompt])
      | Inl e \<Rightarrow> (None, [AzureCall prompt, StError (u ''Erreur avec Azure OpenAI: '' @ e)]))"

section \<open>Extraction of rules and control points\<close>

text \<open>
  A Python set of strings is a list without repetition; \<open>set_add\<close> is \<^verbatim>\<open>add\<close>.
  \<^verbatim>\<open>sorted(s, key=len, reverse=True)\<close> reads the set in its iteration order and sorts it
  stably, longest first.
\<close>

definition set_add :: "ustr \<Rightarrow> ustr list \<Rightarrow> ustr list" where
  "set_add x s = (if x \<in> set s then s else s @ [x])"

definition sorted_len_desc :: "world \<Rightarrow> ustr list \<Rightarrow> ustr list" where
  "sorted_len_desc w s = rev (sort_key length (rev (set_order w s)))"

fun alts :: "rx list \<Rightarrow> rx" where
  "alts [] = Lit []"
| "alts [r] = r"
| "alts (r # rs) = Alt r (alts rs)"

fun seqs :: "rx list \<Rightarrow> rx" where
  "seqs [] = Lit []"
| "seqs [r] = r"
| "seqs (r # rs) = Seq r (seqs rs)"

text \<open>
  The four patterns of \<^verbatim>\<open>extract_business_rules\<close> and the two of
  \<^verbatim>\<open>extract_pdc_from_text\<close>. Their parentheses only group: the source reads the whole
  match.
\<close>

definition rule_pattern1 :: rx where
  "rule_pattern1 =
     seqs
       [alts
         [Lit (u ''Si''),
          Lit (u ''Lorsqu'' @ [39]),
          Lit (u ''Quand''),
          Lit (u ''D'' @ [232] @ u ''s que''),
          Lit (u ''En cas de'')],
        LazyStar Dot,
        alts
         [Lit (u ''alors''),
          Lit (u ''doit''),
          Lit (u ''devra''),
          Lit (u ''est tenu de''),
          Lit (u ''n'' @ [233] @ u ''cessite''),
          Lit (u ''implique''),
          Lit (u ''entra'' @ [238] @ u ''ne''),
          Lit (u ''peut'')],
        LazyStar Dot,
        Lit [46]]"

definition rule_pattern2 :: rx where
  "rule_pattern2 =
     seqs
       [alts
         [Lit (u ''Tout utilisateur''),
          Seq (Lit (u ''L'' @ [39])) (Plus (Chars [(97, 122), (65, 90)])),
          Lit (u ''Un client''),
          Lit (u ''Le syst'' @ [232] @ u ''me''),
          Lit (u ''Une demande'')],
        LazyStar Dot,
        alts
         [Lit (u ''doit''),
          Lit (u ''est tenu de''),
          Lit (u ''devra''),
          Lit (u ''ne peut pas''),
          Lit (u ''ne doit pas''),
          Lit (u ''est interdit de'')],
        LazyStar Dot,
        Lit [46]]"

definition rule_pattern3 :: rx where
  "rule_pattern3 =
     seqs
       [alts
         [Lit (u ''Le non-respect''),
          Lit (u ''Toute infraction''),
          Lit (u ''Une violation'')],
        LazyStar Dot,
        alts
         [Lit (u ''entra'' @ [238] @ u ''ne''),
          Lit (u ''provoque''),
          Lit (u ''peut entra'' @ [238] @ u ''ner''),
          Lit (u ''r'' @ [233] @ u ''sulte en''),
          Lit (u ''sera soumis '' @ [224])],
        LazyStar Dot,
        Lit [46]]"

definition rule_pattern4 :: rx where
  "rule_pattern4 =
     seqs
       [alts
         [Lit (u ''L'' @ [39] @ u ''utilisateur''),
          Lit (u ''Le client''),
          Lit (u ''Le prestataire''),
          Lit (u ''L'' @ [39] @ u ''agent''),
          Lit (u ''Le syst'' @ [232] @ u ''me'')],
        LazyStar Dot,
        alts
         [Lit (u ''est autoris'' @ [233] @ u '' '' @ [224]),
          Lit (u ''peut''),
          Lit (u ''a le droit de'')],
        LazyStar Dot,
        Lit [46]]"

definition pdc_pattern1 :: rx where
  "pdc_pattern1 =
     seqs
       [alts
         [Lit (u ''V'' @ [233] @ u ''rifier''),
          Seq (Lit (u ''S'')) (Seq (Cls (Chars [(39, 39), (39, 39)])) (Lit (u ''assurer''))),
          Lit (u ''Contr'' @ [244] @ u ''ler''),
          Lit (u ''V'' @ [233] @ u ''rification''),
          Lit (u ''Point de contr'' @ [244] @ u ''le'')],
        Bnd,
        LazyStar Dot,
        Cls (Chars [(46, 46), (59, 59)])]"

definition pdc_pattern2 :: rx where
  "pdc_pattern2 =
     seqs
       [alts
         [Lit (u ''Le syst'' @ [232] @ u ''me doit''),
          Lit (u ''Il faut''),
          Lit (u ''Il est n'' @ [233] @ u ''cessaire de'')],
        LazyStar Dot,
        alts
         [Lit (u ''v'' @ [233] @ u ''rifier''),
          Lit (u ''contr'' @ [244] @ u ''ler''),
          Lit (u ''s'' @ [39] @ u ''assurer'')]]"

definition rule_patterns :: "rx list" where
  "rule_patterns = [rule_pattern1, rule_pattern2, rule_pattern3, rule_pattern4]"

definition pdc_patterns :: "rx list" where
  "pdc_patterns = [pdc_pattern1, pdc_pattern2]"

definition rule_keywords :: "ustr list" where
  "rule_keywords =
     [u ''si '',
      u ''alors'',
      u ''doit'',
      u ''est tenu de'',
      u ''ne peut pas'',
      u ''entra'' @ [238] @ u ''ne'',
      u ''provoque'',
      u ''peut entra'' @ [238] @ u ''ner'',
      u ''doit '' @ [234] @ u ''tre'',
      u ''est obligatoire'',
      u ''a le droit de'',
      u ''est autoris'' @ [233] @ u '' '' @ [224]]"

definition rules_prompt :: "ustr \<Rightarrow> ustr" where
  "rules_prompt text =
     [10] @ u ''        Extrait les r'' @ [232] @ u ''gles de gestion m'' @ [233]
     @ u ''tier '' @ [224] @ u '' partir du texte suivant en suivant ces consignes:''
     @ [10] @ u ''        1. Identifie toutes les r'' @ [232]
     @ u ''gles fonctionnelles'' @ [10] @ u ''        2. Formule-les de mani'' @ [232]
     @ u ''re claire et concise'' @ [10] @ u ''        3. Chaque r'' @ [232]
     @ u ''gle doit '' @ [234] @ u ''tre autonome et compl'' @ [232] @ u ''te'' @ [10]
     @ u ''        4. Conserve la formulation originale autant que poss'' @ u ''ible''
     @ [10] @ u ''        5. Retourne uniquement les r'' @ [232]
     @ u ''gles, une par ligne'' @ [10] @ u ''        '' @ [10] @ u ''        Texte:''
     @ [10] @ u ''        '' @ take 10000 text @ u ''  '' @ [35] @ u '' Limite pour ''
     @ [233] @ u ''viter les tokens excessifs'' @ [10] @ u ''        ''"

definition extract_business_rules ::
  "world \<Rightarrow> ustr \<Rightarrow> nlp_model option \<Rightarrow> bool \<Rightarrow> ustr list \<times> event list" where
  "extract_business_rules w text nlp use_ai =
     (if \<not> use_ai then
        let rules0 = fold (\<lambda>pattern rules.
                        fold (\<lambda>m rules. set_add (clean_rule m) rules)
                          (finditer (db w) pattern text) rules)
                      rule_patterns []
        in (case nlp of
              None \<Rightarrow> (sorted_len_desc w rules0, [])
            | Some model \<Rightarrow>
                (sorted_len_desc w
                   (fold (\<lambda>sent rules.
                       if list_ex (\<lambda>keyword. contains (lower (db w) sent) keyword) rule_keywords
                       then (if length (split_ws sent) > 5 then set_add (clean_rule sent) rules
                             else rules)
                       else rules)
                     (sents model text) rules0),
                 [NlpCall text]))
      else
        (case setup_azure_openai w of
           (None, ev) \<Rightarrow> ([], ev)
         | (Some client, ev) \<Rightarrow>
             (case generate_with_azure_openai (rules_prompt text) client of
                (Some result, ev') \<Rightarrow>
                  (if result \<noteq> []
                   then map clean_rule (filter (\<lambda>rule. strip rule \<noteq> []) (split_on 10 result))
                   else [],
                   ev @ ev')
              | (None, ev') \<Rightarrow> ([], ev @ ev'))))"

definition extract_pdc_from_text :: "world \<Rightarrow> ustr \<Rightarrow> ustr list" where
  "extract_pdc_from_text w text =
     sorted_len_desc w
       (fold (\<lambda>pattern pdc_list.
           fold (\<lambda>m pdc_list.
               let pdc = strip m
               in if length (split_ws pdc) > 3
                  then set_add (if \<not> endswith_dot pdc then pdc @ [46] else pdc) pdc_list
                  else pdc_list)
             (finditer (db w) pattern text) pdc_list)
         pdc_patterns [])"

section \<open>Generation of control points\<close>

text \<open>
  The session state, with one optional field for each key that the program reads or
  writes: a key is in the state when its field is not \<open>None\<close>.
\<close>

record test_case =
  tc_ID :: ustr
  tc_Type :: ustr
  tc_PDC :: ustr
  tc_Description :: ustr
  tc_Etapes :: ustr
  tc_Resultat_attendu :: ustr

record session =
  ss_text :: "ustr option"
  ss_text_clean :: "ustr option"
  ss_freq :: "(ustr \<times> nat) list option"
  ss_rules :: "ustr list option"
  ss_pdc_list :: "ustr list option"
  ss_test_cases :: "test_case list option"
  ss_nlp :: "nlp_model option"

definition verifier_que :: "ustr \<Rightarrow> ustr" where
  "verifier_que rule = u ''V'' @ [233] @ u ''rifier que '' @ rule"

definition pdc_prompt :: "ustr \<Rightarrow> ustr" where
  "pdc_prompt rule =
     [10] @ u ''        Transforme cette r'' @ [232]
     @ u ''gle de gestion en Point de Contr'' @ [244] @ u ''le (PDC) testable:'' @ [10]
     @ u ''        - Commence par un verbe d'' @ [39] @ u ''action (V'' @ [233]
     @ u ''rifier, Contr'' @ [244] @ u ''ler, S'' @ [39] @ u ''assurer...)'' @ [10]
     @ u ''        - Doit '' @ [234] @ u ''tre concret et mesurable'' @ [10]
     @ u ''        - Doit couvrir l'' @ [39] @ u ''int'' @ [233] @ u ''gralit'' @ [233]
     @ u '' de la r'' @ [232] @ u ''gle'' @ [10]
     @ u ''        - Formulation claire et concise'' @ [10] @ u ''        '' @ [10]
     @ u ''        R'' @ [232] @ u ''gle: '' @ rule @ [10] @ u ''        '' @ [10]
     @ u ''        Retourne uniquement le PDC sans commentaire.'' @ [10]
     @ u ''        ''"

definition generate_pdc_from_rule ::
  "world \<Rightarrow> session \<Rightarrow> ustr \<Rightarrow> bool \<Rightarrow> ustr \<times> event list" where
  "generate_pdc_from_rule w s rule use_ai =
     (if \<not> use_ai \<or> ss_nlp s = None then
        (case ss_nlp s of
           None \<Rightarrow> (verifier_que rule, [StError (u ''Mod'' @ [232] @ u ''le NLP non charg'' @ [233])])
         | Some nlp \<Rightarrow>
             let doc = tokens nlp rule;
                 verbs = map fst (filter (\<lambda>token. snd token = u ''VERB'') doc);
                 action = (if verbs \<noteq> [] then hd verbs else u ''v'' @ [233] @ u ''rifier'')
             in (capitalize (db w) action @ u '' que '' @ rule, [NlpCall rule]))
      else
        (case setup_azure_openai w of
           (None, ev) \<Rightarrow> (verifier_que rule, ev)
         | (Some client, ev) \<Rightarrow>
             (case generate_with_azure_openai (pdc_prompt rule) client of
                (Some result, ev') \<Rightarrow>
                  (if result \<noteq> [] then result else verifier_que rule, ev @ ev')
              | (None, ev') \<Rightarrow> (verifier_que rule, ev @ ev'))))"

text \<open>
  The statements of the program that write the session state, one constructor for each
  kind (with the lines of the source), and their effect. A value computed elsewhere is
  the argument of the constructor. Appending to a list that is not in the state raises,
  and leaves the state as it is.
\<close>

datatype stmt =
    Set_text ustr                        \<comment> \<open>line 408\<close>
  | Set_text_clean ustr                  \<comment> \<open>line 423\<close>
  | Set_freq "(ustr \<times> nat) list"         \<comment> \<open>line 424\<close>
  | Set_rules "ustr list"                \<comment> \<open>line 483\<close>
  | Set_pdc_list "ustr list"             \<comment> \<open>lines 546, 555, 564, 577\<close>
  | Append_pdc ustr                      \<comment> \<open>line 574\<close>
  | Reset_test_cases                     \<comment> \<open>line 610\<close>
  | Append_test_case test_case           \<comment> \<open>line 614\<close>

fun exec :: "stmt \<Rightarrow> session \<Rightarrow> session" where
  "exec (Set_text t) s = s\<lparr>ss_text := Some t\<rparr>"
| "exec (Set_text_clean t) s = s\<lparr>ss_text_clean := Some t\<rparr>"
| "exec (Set_freq f) s = s\<lparr>ss_freq := Some f\<rparr>"
| "exec (Set_rules rs) s = s\<lparr>ss_rules := Some rs\<rparr>"
| "exec (Set_pdc_list ps) s = s\<lparr>ss_pdc_list := Some ps\<rparr>"
| "exec (Append_pdc p) s =
     (case ss_pdc_list s of None \<Rightarrow> s | Some ps \<Rightarrow> s\<lparr>ss_pdc_list := Some (ps @ [p])\<rparr>)"
| "exec Reset_test_cases s = s\<lparr>ss_test_cases := Some []\<rparr>"
| "exec (Append_test_case c) s =
     (case ss_test_cases s of None \<Rightarrow> s | Some cs \<Rightarrow> s\<lparr>ss_test_cases := Some (cs @ [c])\<rparr>)"

definition new_session :: session where
  "new_session =
     \<lparr>ss_text = None, ss_text_clean = None, ss_freq = None, ss_rules = None,
      ss_pdc_list = None, ss_test_cases = None, ss_nlp = None\<rparr>"

definition run :: "stmt list \<Rightarrow> session" where
  "run stmts = fold exec stmts new_session"

section \<open>Matching rules and control points\<close>

text \<open>
  \<^verbatim>\<open>TfidfVectorizer().fit_transform\<close> and \<^verbatim>\<open>cosine_similarity\<close> belong to a library outside
  the repository: they are parameters. A matrix is the list of its rows;
  \<open>fit_transform\<close> returns the matrix of the documents or raises, \<open>cosine_similarity\<close>
  returns the matrix of the similarities or raises.
\<close>

record ('v, 'f) sklearn =
  fit_transform :: "ustr list \<Rightarrow> py_error + 'v list"
  cosine_similarity :: "'v list \<Rightarrow> 'v list \<Rightarrow> py_error + 'f list list"

definition compare_rules_pdc ::
  "('v, 'f) sklearn \<Rightarrow> ustr list \<Rightarrow> ustr list \<Rightarrow> py_error + 'f list list" where
  "compare_rules_pdc lib rules pdc_list =
     (case fit_transform lib (rules @ pdc_list) of
        Inl e \<Rightarrow> Inl e
      | Inr tfidf_matrix \<Rightarrow>
          cosine_similarity lib (take (length rules) tfidf_matrix)
            (drop (length rules) tfidf_matrix))"

section \<open>Generation of test cases\<close>

definition case_id :: "int \<Rightarrow> ustr" where
  "case_id index = u ''CT-'' @ format_03d index"

definition case_type :: "bool \<Rightarrow> ustr" where
  "case_type is_manual = (if is_manual then u ''Manuel'' else u ''Auto-g'' @ [233] @ u ''n'' @ [233] @ u ''r'' @ [233])"

definition templates :: "ustr \<Rightarrow> ustr list" where
  "templates pdc =
     [u ''Le syst'' @ [232] @ u ''me doit satisfaire : '' @ pdc,
      u ''Confirmer que '' @ pdc,
      u ''Tester la conformit'' @ [233] @ u '' de : '' @ pdc]"

definition default_steps :: "ustr \<Rightarrow> ustr" where
  "default_steps pdc =
     u ''1. Pr'' @ [233] @ u ''parer l'' @ [39] @ u ''environnement'' @ [10]
     @ u ''2. Ex'' @ [233] @ u ''cuter: '' @ pdc
     @ [10] @ u ''3. V'' @ [233] @ u ''rifier le r'' @ [233] @ u ''sultat''"

definition default_expected :: "ustr \<Rightarrow> ustr" where
  "default_expected pdc = pdc @ u '' est correctement impl'' @ [233] @ u ''ment'' @ [233]"

definition test_case_prompt :: "ustr \<Rightarrow> ustr" where
  "test_case_prompt pdc =
     [10] @ u ''        Cr'' @ [233] @ u ''e un cas de test complet et d'' @ [233]
     @ u ''taill'' @ [233] @ u '' '' @ [224] @ u '' partir de ce PDC:'' @ [10]
     @ u ''        '' @ pdc @ [10] @ u ''        '' @ [10]
     @ u ''        Format de sortie:'' @ [10] @ u ''        - ID: CT-XXX'' @ [10]
     @ u ''        - Type: Manuel/Auto-g'' @ [233] @ u ''n'' @ [233] @ u ''r''
     @ [233, 10] @ u ''        - Description: description claire de l'' @ [39]
     @ u ''objectif du test'' @ [10] @ u ''        - '' @ [201] @ u ''tapes: liste num''
     @ [233] @ u ''rot'' @ [233] @ u ''e des actions '' @ [224] @ u '' r'' @ [233]
     @ u ''aliser'' @ [10] @ u ''        - R'' @ [233] @ u ''sultat attendu: r'' @ [233]
     @ u ''sultat observable et v'' @ [233] @ u ''rifiable'' @ [10] @ u ''        ''
     @ [10] @ u ''        Le cas de test doit '' @ [234] @ u ''tre r'' @ [233]
     @ u ''aliste, pr'' @ [233] @ u ''cis et couvrir tous les aspects du PDC.'' @ [10]
     @ u ''        ''"

text \<open>
  The three patterns that read the answer of the service:
  the label \<^verbatim>\<open>Description:\<close>, whitespace, then (the group) one or more characters, as
  few as possible, up to a line feed; the label of the steps, whitespace, then (the
  group) one or more lines that start with a digit and a period; the label of the
  expected result, whitespace, then (the group) the rest of the line.
\<close>

definition desc_pattern :: rx where
  "desc_pattern = seqs [Lit (u ''Description:''), Star Space, Grp (LazyPlus Dot), Lit [10]]"

definition steps_pattern :: rx where
  "steps_pattern =
     seqs [Lit ([201] @ u ''tapes:''), Star Space,
           Grp (PlusG (seqs [Cls Digit, Lit [46], LazyPlus Dot, Lit [10]]))]"

definition expected_pattern :: rx where
  "expected_pattern =
     seqs [Lit (u ''R'' @ [233] @ u ''sultat attendu:''), Star Space, Grp (Plus Dot)]"

text \<open>
  One field of the answer, as the source's conditional expression computes it: the
  default when the pattern does not match, the stripped group when it does; stripping
  a group that took no part in the match raises.
\<close>

definition field :: "ustr option option \<Rightarrow> ustr \<Rightarrow> py_error + ustr" where
  "field m dflt =
     (case m of
        None \<Rightarrow> Inr dflt
      | Some None \<Rightarrow> Inl AttributeError
      | Some (Some g) \<Rightarrow> Inr (strip g))"

text \<open>The body of the \<^verbatim>\<open>try\<close> block: the three fields, or the first exception.\<close>

definition parse_fields :: "ucd \<Rightarrow> ustr \<Rightarrow> ustr \<Rightarrow> py_error + (ustr \<times> ustr \<times> ustr)" where
  "parse_fields d pdc result =
     (let desc = search d desc_pattern result;
          steps = search d steps_pattern result;
          expected = search d expected_pattern result
      in case field desc pdc of
           Inl e \<Rightarrow> Inl e
         | Inr description \<Rightarrow>
             (case field steps (default_steps pdc) of
                Inl e \<Rightarrow> Inl e
              | Inr etapes \<Rightarrow>
                  (case field expected (default_expected pdc) of
                     Inl e \<Rightarrow> Inl e
                   | Inr attendu \<Rightarrow> Inr (description, etapes, attendu))))"

definition create_test_case ::
  "world \<Rightarrow> ustr \<Rightarrow> int \<Rightarrow> bool \<Rightarrow> bool \<Rightarrow> test_case \<times> event list" where
  "create_test_case w pdc index is_manual use_ai =
     (if \<not> use_ai then
        (\<lparr>tc_ID = case_id index,
          tc_Type = case_type is_manual,
          tc_PDC = pdc,
          tc_Description = (if \<not> is_manual then templates pdc ! (draw w mod 3) else pdc),
          tc_Etapes = default_steps pdc,
          tc_Resultat_attendu = default_expected pdc\<rparr>, [])
      else
        (case setup_azure_openai w of
           (None, ev) \<Rightarrow>
             (\<lparr>tc_ID = case_id index,
               tc_Type = case_type is_manual,
               tc_PDC = pdc,
               tc_Description = pdc,
               tc_Etapes = default_steps pdc,
               tc_Resultat_attendu = default_expected pdc\<rparr>, ev)
         | (Some client, ev) \<Rightarrow>
             (let fallback =
                    \<lparr>tc_ID = case_id index,
                     tc_Type = case_type is_manual,
                     tc_PDC = pdc,
                     tc_Description = pdc,
                     tc_Etapes = default_steps pdc,
                     tc_Resultat_attendu = default_expected pdc\<rparr>
              in case generate_with_azure_openai (test_case_prompt pdc) client of
                   (None, ev') \<Rightarrow> (fallback, ev @ ev')
                 | (Some result, ev') \<Rightarrow>
                     (if result \<noteq> [] then
                        (case parse_fields (db w) pdc result of
                           Inr (description, etapes, attendu) \<Rightarrow>
                             (\<lparr>tc_ID = case_id index,
                               tc_Type = case_type is_manual,
                               tc_PDC = pdc,
                               tc_Description = description,
                               tc_Etapes = etapes,
                               tc_Resultat_attendu = attendu\<rparr>, ev @ ev')
                         | Inl e \<Rightarrow> (fallback, ev @ ev'))
                      else (fallback, ev @ ev')))))"

text \<open>
  The loop of the fifth tab (lines 612 to 614): \<open>has_pdc\<close> is the answer to the question
  whether control points are imported, \<open>worlds i\<close> the world of the call for item \<open>i\<close>.
\<close>

definition is_manual_at :: "ustr \<Rightarrow> ustr list \<Rightarrow> nat \<Rightarrow> bool" where
  "is_manual_at has_pdc pdc_list i \<longleftrightarrow> startswith has_pdc (u ''Oui'') \<and> i \<le> length pdc_list"

definition enumerate1 :: "'a list \<Rightarrow> (nat \<times> 'a) list" where
  "enumerate1 xs = zip [1..<Suc (length xs)] xs"

definition generate_test_cases ::
  "(nat \<Rightarrow> world) \<Rightarrow> ustr \<Rightarrow> ustr list \<Rightarrow> bool \<Rightarrow> test_case list" where
  "generate_test_cases worlds has_pdc pdc_list use_ai_tests =
     map (\<lambda>(i, pdc).
            fst (create_test_case (worlds i) pdc (int i) (is_manual_at has_pdc pdc_list i)
                   use_ai_tests))
       (enumerate1 pdc_list)"

section \<open>A world for the examples\<close>

text \<open>
  The examples below run in a world whose Unicode database is that of Latin-1 (the
  examples contain no code point above 255), whose sets are iterated in insertion
  order, where the text-generation service is not configured and the random source
  draws 0. The fields are changed where an example needs another world.
\<close>

definition latin1 :: ucd where
  "latin1 =
     \<lparr>alnum = (\<lambda>c. c \<in> set [170, 178, 179, 181, 185, 186, 188, 189, 190]
                  \<or> (192 \<le> c \<and> c \<le> 255 \<and> c \<noteq> 215 \<and> c \<noteq> 247)),
      decimal = (\<lambda>c. False),
      str_lower = (\<lambda>s. s),
      cp_title = (\<lambda>c. if c = 181 then [924] else if c = 223 then [83, 115]
                      else if c = 255 then [376] else [c])\<rparr>"

definition world0 :: world where
  "world0 = \<lparr>db = latin1, set_order = (\<lambda>s. s), azure = None, draw = 0\<rparr>"

text \<open>
  A stand-in for the library, for the examples: a document is represented by the number
  of its words, an empty list of documents is rejected, two documents are similar when
  they have the same number of words, and a matrix without rows is rejected.
\<close>

definition toy_sklearn :: "(nat, bool) sklearn" where
  "toy_sklearn =
     \<lparr>fit_transform = (\<lambda>docs. if docs = [] then Inl ValueError
                               else Inr (map (\<lambda>doc. length (split_ws doc)) docs)),
      cosine_similarity = (\<lambda>x y. if x = [] \<or> y = [] then Inl ValueError
                                   else Inr (map (\<lambda>a. map (\<lambda>b. a = b) y) x))\<rparr>"
section \<open>Properties of the cleaner\<close>

lemma is_space_32 [simp]: "is_space 32"
  by (simp add: is_space_def)

lemma not_space_46 [simp]: "\<not> is_space 46"
  by (simp add: is_space_def)

lemma sub_ws_Nil_iff [simp]: "sub_ws xs = [] \<longleftrightarrow> xs = []"
  by (cases xs) auto

lemma hd_sub_ws: "xs \<noteq> [] \<Longrightarrow> \<not> is_space (hd xs) \<Longrightarrow> hd (sub_ws xs) = hd xs"
  by (cases xs) auto

lemma dropWhile_head: "dropWhile P xs = [] \<or> \<not> P (hd (dropWhile P xs))"
  by (metis hd_dropWhile)

lemma collapsed_sub_ws: "collapsed (sub_ws s)"
proof (induction s rule: sub_ws.induct)
  case 1
  show ?case by simp
next
  case (2 c cs)
  show ?case
  proof (cases "is_space c")
    case True
    let ?r = "dropWhile is_space cs"
    have "?r = [] \<or> \<not> is_space (hd (sub_ws ?r))"
    proof (cases "?r = []")
      case True
      then show ?thesis by (rule disjI1)
    next
      case False
      with dropWhile_head [of is_space cs] have "\<not> is_space (hd ?r)" by blast
      with False show ?thesis by (simp only: hd_sub_ws not_False_eq_True simp_thms)
    qed
    with True 2 show ?thesis by simp
  next
    case False
    with 2 show ?thesis by simp
  qed
qed

lemma sub_ws_collapsed: "collapsed s \<Longrightarrow> sub_ws s = s"
proof (induction s rule: sub_ws.induct)
  case 1
  show ?case by simp
next
  case (2 c cs)
  show ?case
  proof (cases "is_space c")
    case True
    with 2 have eq: "c = 32" and nxt: "cs = [] \<or> \<not> is_space (hd cs)" and rest: "collapsed cs"
      by auto
    from nxt have "dropWhile is_space cs = cs" by (cases cs) auto
    with True eq rest 2 show ?thesis by simp
  next
    case False
    with 2 show ?thesis by simp
  qed
qed

lemma collapsed_append: "collapsed (xs @ ys) \<Longrightarrow> collapsed xs \<and> collapsed ys"
  by (induction xs) (auto simp: hd_append)

lemma collapsed_snoc_dot:
  "collapsed t \<Longrightarrow> t = [] \<or> \<not> is_space (last t) \<Longrightarrow> collapsed (t @ [46])"
  by (induction t) (auto simp: hd_append split: if_splits)

lemma collapsed_dropWhile: "collapsed s \<Longrightarrow> collapsed (dropWhile P s)"
  using collapsed_append [of "takeWhile P s" "dropWhile P s"] by simp

lemma rstrip_split: "rev (dropWhile P (rev s)) @ rev (takeWhile P (rev s)) = s"
  by (metis rev_append rev_rev_ident takeWhile_dropWhile_id)

lemma collapsed_strip: "collapsed s \<Longrightarrow> collapsed (strip s)"
proof -
  assume "collapsed s"
  then have a: "collapsed (dropWhile is_space s)" by (rule collapsed_dropWhile)
  let ?a = "dropWhile is_space s"
  from a rstrip_split [of is_space ?a]
  show ?thesis unfolding strip_def using collapsed_append by metis
qed

lemma last_rstrip: "rev (dropWhile P (rev s)) = [] \<or> \<not> P (last (rev (dropWhile P (rev s))))"
  using dropWhile_head [of P "rev s"] by (auto simp: last_rev)

lemma hd_rstrip: "rev (dropWhile P (rev s)) \<noteq> [] \<Longrightarrow> hd (rev (dropWhile P (rev s))) = hd s"
  by (metis hd_append2 rstrip_split)

lemma trimmed_strip: "trimmed (strip s)"
proof (cases "strip s = []")
  case True
  then show ?thesis by (simp add: trimmed_def)
next
  case False
  let ?a = "dropWhile is_space s"
  from False have b: "rev (dropWhile is_space (rev ?a)) \<noteq> []"
    by (simp only: strip_def not_False_eq_True)
  then have a: "?a \<noteq> []" by (cases "?a = []") simp_all
  from b have "hd (strip s) = hd ?a"
    unfolding strip_def by (rule hd_rstrip)
  moreover from a dropWhile_head [of is_space s] have "\<not> is_space (hd ?a)" by blast
  moreover from b last_rstrip [of is_space ?a] have "\<not> is_space (last (strip s))"
    unfolding strip_def by blast
  ultimately show ?thesis by (simp add: trimmed_def)
qed

lemma strip_trimmed: "trimmed s \<Longrightarrow> strip s = s"
proof (cases "s = []")
  case True
  then show ?thesis by (simp add: strip_def)
next
  case False
  assume "trimmed s"
  with False have h: "\<not> is_space (hd s)" and l: "\<not> is_space (last s)"
    by (auto simp: trimmed_def)
  from False h have 1: "dropWhile is_space s = s" by (cases s) auto
  from False l have 2: "dropWhile is_space (rev s) = rev s"
    by (cases "rev s") (auto simp: last_rev hd_rev [symmetric])
  show ?thesis by (simp add: strip_def 1 2)
qed

lemma trimmed_snoc_dot: "trimmed t \<Longrightarrow> trimmed (t @ [46])"
  by (auto simp: trimmed_def hd_append)

lemma clean_rule_collapsed: "collapsed (clean_rule x)"
proof -
  let ?t = "strip (sub_ws x)"
  have c: "collapsed ?t" by (simp add: collapsed_strip collapsed_sub_ws)
  have "trimmed ?t" by (rule trimmed_strip)
  then have "?t = [] \<or> \<not> is_space (last ?t)" by (auto simp: trimmed_def)
  with c have "collapsed (?t @ [46])" by (rule collapsed_snoc_dot)
  with c show ?thesis by (simp add: clean_rule_def Let_def)
qed

lemma clean_rule_trimmed: "trimmed (clean_rule x)"
  by (simp add: clean_rule_def Let_def trimmed_strip trimmed_snoc_dot)

lemma clean_rule_endswith_dot: "endswith_dot (clean_rule x)"
  by (simp add: clean_rule_def Let_def endswith_dot_def)

lemma clean_rule_fixed:
  "collapsed y \<Longrightarrow> trimmed y \<Longrightarrow> endswith_dot y \<Longrightarrow> clean_rule y = y"
  by (simp add: clean_rule_def Let_def sub_ws_collapsed strip_trimmed)

lemma clean_rule_idem: "clean_rule (clean_rule x) = clean_rule x"
  by (intro clean_rule_fixed clean_rule_collapsed clean_rule_trimmed clean_rule_endswith_dot)

lemma trailing_dots_snoc: "trailing_dots (t @ [c]) = (if c = 46 then Suc (trailing_dots t) else 0)"
  by (simp add: trailing_dots_def)

lemma trailing_dots_0: "\<not> endswith_dot t \<Longrightarrow> trailing_dots t = 0"
  by (cases t rule: rev_cases) (auto simp: trailing_dots_def endswith_dot_def)

lemma trailing_dots_pos: "endswith_dot t \<Longrightarrow> 1 \<le> trailing_dots t"
  by (cases t rule: rev_cases) (auto simp: trailing_dots_def endswith_dot_def)

lemma clean_rule_trailing:
  "trailing_dots (clean_rule x) = max 1 (trailing_dots (strip (sub_ws x)))"
  using trailing_dots_pos [of "strip (sub_ws x)"]
  by (auto simp: clean_rule_def Let_def trailing_dots_snoc trailing_dots_0)


text \<open>
  Claim C1, as amended. For every string \<open>x\<close> (the empty one included) the cleaner is
  idempotent, its result has every whitespace run collapsed to a single space, is
  trimmed, and ends with a period. It never removes a period: the result ends with as
  many periods as the collapsed and trimmed text did, and with one when that text
  ended with none. So the result ends with exactly one period unless the trimmed text
  already ended with two or more.
\<close>

theorem clean_rule_normalizes:
  "clean_rule (clean_rule x) = clean_rule x
   \<and> collapsed (clean_rule x)
   \<and> trimmed (clean_rule x)
   \<and> endswith_dot (clean_rule x)
   \<and> trailing_dots (clean_rule x) = max 1 (trailing_dots (strip (sub_ws x)))"
  by (intro conjI clean_rule_idem clean_rule_collapsed clean_rule_trimmed
      clean_rule_endswith_dot clean_rule_trailing)

theorem clean_rule_normalizes_witness:
  "clean_rule (u ''  Si  x,   alors y  '') = u ''Si x, alors y.''
   \<and> clean_rule (clean_rule (u ''  Si  x,   alors y  '')) = u ''Si x, alors y.''
   \<and> collapsed (clean_rule (u ''  Si  x,   alors y  ''))
   \<and> trimmed (clean_rule (u ''  Si  x,   alors y  ''))
   \<and> trailing_dots (clean_rule (u ''  Si  x,   alors y  '')) = 1"
proof -
  have v: "clean_rule (u ''  Si  x,   alors y  '') = u ''Si x, alors y.''"
    by (simp add: clean_rule_def u_def strip_def endswith_dot_def is_space_def)
  have t: "trailing_dots (strip (sub_ws (u ''  Si  x,   alors y  ''))) = 0"
    by (simp add: u_def strip_def is_space_def trailing_dots_def)
  from clean_rule_normalizes [of "u ''  Si  x,   alors y  ''"] show ?thesis
    by (simp only: v t) simp
qed

text \<open>
  Claim C1 as stated fails: the non-empty rule \<open>a..\<close> is returned unchanged, with two
  trailing periods.
\<close>

theorem clean_rule_two_periods_counterexample:
  "u ''a..'' \<noteq> [] \<and> clean_rule (u ''a..'') = u ''a..''
   \<and> trailing_dots (clean_rule (u ''a..'')) = 2"
  by (simp add: clean_rule_def u_def strip_def endswith_dot_def is_space_def trailing_dots_def)

section \<open>Properties of the generation of test cases\<close>

lemma create_test_case_ID: "tc_ID (fst (create_test_case w pdc index is_manual use_ai)) = case_id index"
  by (simp add: create_test_case_def Let_def split: prod.splits option.splits sum.splits)

lemma create_test_case_Type:
  "tc_Type (fst (create_test_case w pdc index is_manual use_ai)) = case_type is_manual"
  by (simp add: create_test_case_def Let_def split: prod.splits option.splits sum.splits)

lemma digits_lt_10: "n < 10 \<Longrightarrow> digits n = [48 + n]"
  by (subst digits.simps) simp

lemma digits_lt_100: "10 \<le> n \<Longrightarrow> n < 100 \<Longrightarrow> digits n = [48 + n div 10, 48 + n mod 10]"
  by (subst digits.simps) (simp add: digits_lt_10)

lemma digits_lt_1000:
  "100 \<le> n \<Longrightarrow> n < 1000 \<Longrightarrow> digits n = [48 + n div 100, 48 + n div 10 mod 10, 48 + n mod 10]"
proof -
  assume a: "100 \<le> n" "n < 1000"
  then have b: "10 \<le> n div 10" "n div 10 < 100" "\<not> n < 10" by simp_all
  have c: "n div 10 div 10 = n div 100" by (simp add: div_mult2_eq [symmetric])
  show ?thesis
    by (subst digits.simps) (simp only: b digits_lt_100 c if_False append.simps)
qed

lemma format_03d_small:
  assumes "n < 1000"
  shows "format_03d (int n) = [48 + n div 100, 48 + n div 10 mod 10, 48 + n mod 10]"
proof -
  consider "n < 10" | "10 \<le> n" "n < 100" | "100 \<le> n" by linarith
  then show ?thesis
  proof cases
    case 1
    then show ?thesis by (simp add: format_03d_def zfill_def digits_lt_10 numeral_3_eq_3 del: digits.simps)
  next
    case 2
    then show ?thesis by (simp add: format_03d_def zfill_def digits_lt_100 del: digits.simps)
  next
    case 3
    with assms show ?thesis by (simp add: format_03d_def zfill_def digits_lt_1000 del: digits.simps)
  qed
qed

lemma length_generate_test_cases:
  "length (generate_test_cases worlds has_pdc pdc_list use_ai) = length pdc_list"
  by (simp add: generate_test_cases_def enumerate1_def del: upt_Suc)

lemma nth_generate_test_cases:
  assumes "k < length pdc_list"
  shows "generate_test_cases worlds has_pdc pdc_list use_ai ! k =
         fst (create_test_case (worlds (Suc k)) (pdc_list ! k) (int (Suc k))
                (is_manual_at has_pdc pdc_list (Suc k)) use_ai)"
proof -
  from assms have "enumerate1 pdc_list ! k = (Suc k, pdc_list ! k)"
    unfolding enumerate1_def by (simp add: nth_upt del: upt_Suc)
  with assms show ?thesis
    by (simp add: generate_test_cases_def enumerate1_def del: upt_Suc)
qed

text \<open>
  Claim C7. For a list of \<open>N\<close> control points the loop produces \<open>N\<close> test cases, and the
  case at position \<open>k\<close> (counted from 0) has the identifier \<open>CT-\<close> followed by \<open>k + 1\<close> in
  decimal, padded with zeros to three digits: the identifiers are \<open>CT-001\<close>, \<open>CT-002\<close>
  and so on without a gap. This holds for every world and both values of \<open>use_ai\<close>, so
  in the heuristic mode, the service-assisted mode and every fallback branch.
\<close>

theorem test_case_ids:
  assumes "k < length pdc_list"
  shows "length (generate_test_cases worlds has_pdc pdc_list use_ai) = length pdc_list
    \<and> tc_ID (generate_test_cases worlds has_pdc pdc_list use_ai ! k)
        = u ''CT-'' @ format_03d (int (Suc k))
    \<and> (Suc k < 1000 \<longrightarrow>
         format_03d (int (Suc k)) = [48 + Suc k div 100, 48 + Suc k div 10 mod 10, 48 + Suc k mod 10])"
proof (intro conjI impI)
  show "length (generate_test_cases worlds has_pdc pdc_list use_ai) = length pdc_list"
    by (rule length_generate_test_cases)
  show "tc_ID (generate_test_cases worlds has_pdc pdc_list use_ai ! k)
        = u ''CT-'' @ format_03d (int (Suc k))"
    using assms by (simp only: nth_generate_test_cases create_test_case_ID case_id_def)
  show "format_03d (int (Suc k)) = [48 + Suc k div 100, 48 + Suc k div 10 mod 10, 48 + Suc k mod 10]"
    if "Suc k < 1000"
    using that by (rule format_03d_small)
qed



text \<open>
  The second of two test cases, generated in the service-assisted mode without a
  configured service, is \<open>CT-002\<close>.
\<close>

theorem test_case_ids_witness:
  "(1::nat) < length [u ''a'', u ''b'']
   \<and> tc_ID (generate_test_cases (\<lambda>i. world0) (u ''Oui'') [u ''a'', u ''b''] True ! 1) = u ''CT-002''"
  using test_case_ids [of 1 "[u ''a'', u ''b'']" "\<lambda>i. world0" "u ''Oui''" True]
  by (simp add: u_def)

lemma in_enumerate1: "(i, x) \<in> set (enumerate1 xs) \<Longrightarrow> 1 \<le> i \<and> i \<le> length xs"
  unfolding enumerate1_def by (auto dest!: set_zip_leftD simp del: upt_Suc)

text \<open>
  Claim C6. In the loop the index \<open>i\<close> runs from 1 to the length of the list, so the
  comparison \<open>i \<le> len(pdc_list)\<close> holds for every item and the flag is just the test
  whether the answer starts with \<open>Oui\<close>. When control points were imported every
  generated test case therefore has the type \<open>Manuel\<close>, in every world and mode.
\<close>

theorem is_manual_always_true:
  "(\<forall>i \<in> {1..length pdc_list}.
      i \<le> length pdc_list
      \<and> is_manual_at has_pdc pdc_list i = startswith has_pdc (u ''Oui''))
   \<and> (startswith has_pdc (u ''Oui'') \<longrightarrow>
        (\<forall>c \<in> set (generate_test_cases worlds has_pdc pdc_list use_ai_tests).
           tc_Type c = u ''Manuel''))"
proof (intro conjI ballI impI)
  fix i assume "i \<in> {1..length pdc_list}"
  then show "i \<le> length pdc_list" by simp
  then show "is_manual_at has_pdc pdc_list i = startswith has_pdc (u ''Oui'')"
    by (simp add: is_manual_at_def)
next
  fix c
  assume oui: "startswith has_pdc (u ''Oui'')"
    and "c \<in> set (generate_test_cases worlds has_pdc pdc_list use_ai_tests)"
  then obtain i pdc where ix: "(i, pdc) \<in> set (enumerate1 pdc_list)"
    and c: "c = fst (create_test_case (worlds i) pdc (int i) (is_manual_at has_pdc pdc_list i)
                 use_ai_tests)"
    by (auto simp: generate_test_cases_def)
  from ix have "i \<le> length pdc_list" by (auto dest: in_enumerate1)
  with oui have "is_manual_at has_pdc pdc_list i" by (simp add: is_manual_at_def)
  with c show "tc_Type c = u ''Manuel''"
    by (simp only: create_test_case_Type case_type_def if_True)
qed

text \<open>
  With the answer of the first radio button, both of two test cases are \<open>Manuel\<close>.
\<close>

theorem is_manual_always_true_witness:
  "startswith (u ''Oui, j'' @ [39] @ u ''ai des PDC existants'') (u ''Oui'')
   \<and> map tc_Type (generate_test_cases (\<lambda>i. world0) (u ''Oui, j'' @ [39] @ u ''ai des PDC existants'')
          [u ''a'', u ''b''] False) = [u ''Manuel'', u ''Manuel'']"
proof -
  have s: "startswith (u ''Oui, j'' @ [39] @ u ''ai des PDC existants'') (u ''Oui'')"
    by (simp add: startswith_def u_def)
  have l: "generate_test_cases (\<lambda>i. world0) (u ''Oui, j'' @ [39] @ u ''ai des PDC existants'') [u ''a'', u ''b''] False
    = [generate_test_cases (\<lambda>i. world0) (u ''Oui, j'' @ [39] @ u ''ai des PDC existants'') [u ''a'', u ''b''] False ! 0,
       generate_test_cases (\<lambda>i. world0) (u ''Oui, j'' @ [39] @ u ''ai des PDC existants'') [u ''a'', u ''b''] False ! 1]"
    by (simp add: generate_test_cases_def enumerate1_def)
  from is_manual_always_true [of "[u ''a'', u ''b'']" "(u ''Oui, j'' @ [39] @ u ''ai des PDC existants'')"
      "\<lambda>i. world0" False] s
  have "\<forall>c \<in> set (generate_test_cases (\<lambda>i. world0) (u ''Oui, j'' @ [39] @ u ''ai des PDC existants'') [u ''a'', u ''b''] False).
          tc_Type c = u ''Manuel''"
    by blast
  then have "map tc_Type (generate_test_cases (\<lambda>i. world0) (u ''Oui, j'' @ [39] @ u ''ai des PDC existants'') [u ''a'', u ''b''] False)
      = [u ''Manuel'', u ''Manuel'']"
    by (subst l) (simp add: length_generate_test_cases)
  with s show ?thesis by blast
qed

lemma template_neq: "templates pdc ! (n mod 3) \<noteq> pdc"
proof -
  have "n mod 3 = 0 \<or> n mod 3 = 1 \<or> n mod 3 = 2" by arith
  moreover have "\<And>p. p \<noteq> [] \<Longrightarrow> p @ pdc \<noteq> pdc" by simp
  ultimately show ?thesis
    by (auto simp: templates_def u_def)
qed

lemma template_in: "templates pdc ! (n mod 3) \<in> set (templates pdc)"
  by (rule nth_mem) (simp add: templates_def)

lemma parse_fields_nomatch:
  "search d desc_pattern r = None \<Longrightarrow> search d steps_pattern r = None
   \<Longrightarrow> search d expected_pattern r = None
   \<Longrightarrow> parse_fields d pdc r = Inr (pdc, default_steps pdc, default_expected pdc)"
  by (simp add: parse_fields_def field_def)

lemma service_fallback:
  assumes "azure w = Some client"
    and "client (test_case_prompt pdc) = Inr content"
    and "(search (db w) desc_pattern (strip content) = None
          \<and> search (db w) steps_pattern (strip content) = None
          \<and> search (db w) expected_pattern (strip content) = None)
         \<or> isl (parse_fields (db w) pdc (strip content))"
  shows "fst (create_test_case w pdc index is_manual True)
         = \<lparr>tc_ID = case_id index, tc_Type = case_type is_manual, tc_PDC = pdc,
            tc_Description = pdc, tc_Etapes = default_steps pdc,
            tc_Resultat_attendu = default_expected pdc\<rparr>"
  using assms(3)
proof
  assume "search (db w) desc_pattern (strip content) = None
          \<and> search (db w) steps_pattern (strip content) = None
          \<and> search (db w) expected_pattern (strip content) = None"
  then have "parse_fields (db w) pdc (strip content)
             = Inr (pdc, default_steps pdc, default_expected pdc)"
    by (simp add: parse_fields_nomatch)
  with assms(1,2) show ?thesis
    by (simp add: create_test_case_def setup_azure_openai_def generate_with_azure_openai_def
        Let_def)
next
  assume "isl (parse_fields (db w) pdc (strip content))"
  then obtain e where "parse_fields (db w) pdc (strip content) = Inl e"
    by (cases "parse_fields (db w) pdc (strip content)") auto
  with assms(1,2) show ?thesis
    by (simp add: create_test_case_def setup_azure_openai_def generate_with_azure_openai_def
        Let_def)
qed

text \<open>
  Claim C3, as amended. When the answer of the service is one in which none of the
  three patterns matches, or one whose parsing raises, the service-assisted generator
  returns the record of the heuristic path for the same control point, index and
  flag with the control point itself as description. For a manual case that is the
  record of the heuristic path. For a case that is not manual the heuristic path
  describes the case by one of three templates around the control point, never by
  the control point alone, so the two records differ in the description (and only
  there).
\<close>

theorem service_fallback_record:
  assumes "azure w = Some client"
    and "client (test_case_prompt pdc) = Inr content"
    and "(search (db w) desc_pattern (strip content) = None
          \<and> search (db w) steps_pattern (strip content) = None
          \<and> search (db w) expected_pattern (strip content) = None)
         \<or> isl (parse_fields (db w) pdc (strip content))"
  shows "fst (create_test_case w pdc index is_manual True)
           = (fst (create_test_case w' pdc index is_manual False))\<lparr>tc_Description := pdc\<rparr>
    \<and> (is_manual \<longrightarrow>
          fst (create_test_case w pdc index is_manual True)
            = fst (create_test_case w' pdc index is_manual False))
    \<and> (\<not> is_manual \<longrightarrow>
          tc_Description (fst (create_test_case w' pdc index is_manual False)) \<in> set (templates pdc)
          \<and> tc_Description (fst (create_test_case w' pdc index is_manual False)) \<noteq> pdc
          \<and> fst (create_test_case w pdc index is_manual True)
            \<noteq> fst (create_test_case w' pdc index is_manual False))"
proof -
  note f = service_fallback [OF assms, of index is_manual]
  have h: "fst (create_test_case w' pdc index is_manual False) =
     \<lparr>tc_ID = case_id index, tc_Type = case_type is_manual, tc_PDC = pdc,
      tc_Description = (if \<not> is_manual then templates pdc ! (draw w' mod 3) else pdc),
      tc_Etapes = default_steps pdc, tc_Resultat_attendu = default_expected pdc\<rparr>"
    by (simp add: create_test_case_def)
  show ?thesis
    by (simp only: f h) (simp add: template_neq template_neq [symmetric] template_in)
qed

text \<open>
  The answer \<open>ok\<close> matches none of the patterns; for a manual case the two paths agree.
\<close>

theorem service_fallback_record_witness:
  "fst (create_test_case (world0\<lparr>azure := Some (\<lambda>prompt. Inr (u ''ok''))\<rparr>)
          (u ''V'' @ [233] @ u ''rifier le total.'') 1 True True)
   = fst (create_test_case world0 (u ''V'' @ [233] @ u ''rifier le total.'') 1 True False)"
proof -
  let ?w = "world0\<lparr>azure := Some (\<lambda>prompt. Inr (u ''ok''))\<rparr>"
  have a: "azure ?w = Some (\<lambda>prompt. Inr (u ''ok''))" by simp
  have b: "(\<lambda>prompt. Inr (u ''ok'') :: ustr + ustr) (test_case_prompt (u ''V'' @ [233] @ u ''rifier le total.'')) = Inr (u ''ok'')"
    by simp
  have c: "(search (db ?w) desc_pattern (strip (u ''ok'')) = None
          \<and> search (db ?w) steps_pattern (strip (u ''ok'')) = None
          \<and> search (db ?w) expected_pattern (strip (u ''ok'')) = None)
         \<or> isl (parse_fields (db ?w) (u ''V'' @ [233] @ u ''rifier le total.'') (strip (u ''ok'')))"
    by (simp add: search_def search_from.simps match_at_def desc_pattern_def steps_pattern_def
        expected_pattern_def u_def strip_def is_space_def ci_def ci_variants_def
        is_lower_simple_def is_upper_simple_def ci_extra_def)
  from service_fallback_record [OF a b c, of 1 True world0] show ?thesis by blast
qed

text \<open>
  Claim C3 as stated fails for a case that is not manual: on the answer \<open>ok\<close>, which
  none of the patterns matches, the service-assisted path describes the case by the
  control point, the heuristic path by one of its templates, whatever the draw.
\<close>

theorem service_fallback_differs_counterexample:
  "search latin1 desc_pattern (u ''ok'') = None
   \<and> search latin1 steps_pattern (u ''ok'') = None
   \<and> search latin1 expected_pattern (u ''ok'') = None
   \<and> tc_Description (fst (create_test_case (world0\<lparr>azure := Some (\<lambda>prompt. Inr (u ''ok''))\<rparr>)
        (u ''V'' @ [233] @ u ''rifier le total.'') 1 False True)) = u ''V'' @ [233] @ u ''rifier le total.''
   \<and> tc_Description (fst (create_test_case (world0\<lparr>draw := 0\<rparr>) (u ''V'' @ [233] @ u ''rifier le total.'') 1 False False))
        = u ''Le syst'' @ [232] @ u ''me doit satisfaire : V'' @ [233]
          @ u ''rifier le total.''
   \<and> tc_Description (fst (create_test_case (world0\<lparr>draw := 1\<rparr>) (u ''V'' @ [233] @ u ''rifier le total.'') 1 False False))
        = u ''Confirmer que V'' @ [233] @ u ''rifier le total.''
   \<and> tc_Description (fst (create_test_case (world0\<lparr>draw := 2\<rparr>) (u ''V'' @ [233] @ u ''rifier le total.'') 1 False False))
        = u ''Tester la conformit'' @ [233] @ u '' de : V'' @ [233]
          @ u ''rifier le total.''"
  by (simp add: search_def search_from.simps match_at_def desc_pattern_def steps_pattern_def
      expected_pattern_def u_def strip_def is_space_def ci_def ci_variants_def
      is_lower_simple_def is_upper_simple_def ci_extra_def create_test_case_def
      setup_azure_openai_def generate_with_azure_openai_def world0_def parse_fields_def
      field_def templates_def Let_def)


section \<open>Properties of the generation of control points\<close>


lemma verifier_que_eq: "verifier_que rule = (u ''V'' @ [233] @ u ''rifier'') @ u '' que '' @ rule"
  by (simp add: verifier_que_def u_def)



lemma exec_nlp: "ss_nlp (exec st s) = ss_nlp s"
  by (cases st) (simp_all split: option.splits)

lemma fold_exec_nlp: "ss_nlp (fold exec stmts s) = ss_nlp s"
  by (induction stmts arbitrary: s) (simp_all add: exec_nlp)

lemma run_nlp: "ss_nlp (run stmts) = None"
  by (simp add: run_def fold_exec_nlp new_session_def)

text \<open>
  Claim C10. No statement of the program writes the key \<open>nlp\<close>: after any sequence of
  the statements that write the session state, started from the empty state, the key
  is absent. And in a state without the key the generator, for every rule and both
  values of \<open>use_ai\<close>, returns the default phrase followed by the rule and does nothing but
  report the error: the service is neither configured nor called and the linguistic
  model is not run.
\<close>

theorem no_nlp_model_branch:
  "ss_nlp (run stmts) = None
   \<and> (ss_nlp s = None \<longrightarrow>
        generate_pdc_from_rule w s rule use_ai
          = ((u ''V'' @ [233] @ u ''rifier que '') @ rule, [StError (u ''Mod'' @ [232] @ u ''le NLP non charg'' @ [233])]))"
  by (simp add: run_nlp generate_pdc_from_rule_def verifier_que_def)

text \<open>
  A state reached by two assignments, a world in which the service is configured and
  answers, and \<open>use_ai\<close> true: the answer of the service is not asked for.
\<close>

theorem no_nlp_model_branch_witness:
  "generate_pdc_from_rule (world0\<lparr>azure := Some (\<lambda>prompt. Inr (u ''Controler.''))\<rparr>)
     (run [Set_text (u ''x''), Set_rules [u ''r.'']]) (u ''r.'') True
   = ((u ''V'' @ [233] @ u ''rifier que '') @ u ''r.'', [StError (u ''Mod'' @ [232] @ u ''le NLP non charg'' @ [233])])"
  using no_nlp_model_branch [of "[Set_text (u ''x''), Set_rules [u ''r.'']]"
      "run [Set_text (u ''x''), Set_rules [u ''r.'']]"
      "world0\<lparr>azure := Some (\<lambda>prompt. Inr (u ''Controler.''))\<rparr>" "u ''r.''" True]
  by blast


section \<open>Properties of the matcher\<close>

lemma compare_rules_pdc_no_rules:
  assumes "\<forall>x y. x = [] \<or> y = [] \<longrightarrow> isl (cosine_similarity lib x y)"
  shows "isl (compare_rules_pdc lib [] pdc_list)"
  using assms by (simp add: compare_rules_pdc_def split: sum.splits)

lemma compare_rules_pdc_no_pdc:
  assumes rows: "\<forall>docs m. fit_transform lib docs = Inr m \<longrightarrow> length m = length docs"
    and empty: "\<forall>x y. x = [] \<or> y = [] \<longrightarrow> isl (cosine_similarity lib x y)"
  shows "isl (compare_rules_pdc lib rules [])"
proof (cases "fit_transform lib rules")
  case (Inl e)
  then show ?thesis by (simp add: compare_rules_pdc_def)
next
  case (Inr m)
  with rows have "length m = length rules" by blast
  then have "drop (length rules) m = []" by simp
  with Inr empty show ?thesis by (simp add: compare_rules_pdc_def)
qed

text \<open>
  Claim C2. The two functions of the library check their input: \<open>fit_transform\<close>
  returns one row for each document when it returns, and \<open>cosine_similarity\<close> rejects a
  matrix without rows. For every library that does so, the matcher raises whenever the
  list of rules or the list of control points is empty, whatever the other list is:
  without rules the first slice of the matrix has no row, without control points the
  second has none.
\<close>

theorem matcher_fails_on_empty:
  assumes "\<forall>docs m. fit_transform lib docs = Inr m \<longrightarrow> length m = length docs"
    and "\<forall>x y. x = [] \<or> y = [] \<longrightarrow> isl (cosine_similarity lib x y)"
  shows "rules = [] \<or> pdc_list = [] \<longrightarrow> isl (compare_rules_pdc lib rules pdc_list)"
  using compare_rules_pdc_no_rules [OF assms(2)] compare_rules_pdc_no_pdc [OF assms]
  by blast

text \<open>
  With the stand-in library the matcher raises on each kind of empty input, and
  returns a matrix for one rule and two control points.
\<close>

theorem matcher_fails_on_empty_witness:
  "isl (compare_rules_pdc toy_sklearn [] [u ''a b'', u ''c''])
   \<and> isl (compare_rules_pdc toy_sklearn [u ''a b''] [])
   \<and> isl (compare_rules_pdc toy_sklearn [] [])
   \<and> compare_rules_pdc toy_sklearn [u ''a b''] [u ''a b'', u ''c''] = Inr [[True, False]]"
proof -
  have 1: "\<forall>docs m. fit_transform toy_sklearn docs = Inr m \<longrightarrow> length m = length docs"
    by (auto simp: toy_sklearn_def split: if_splits)
  have 2: "\<forall>x y. x = [] \<or> y = [] \<longrightarrow> isl (cosine_similarity toy_sklearn x y)"
    by (simp add: toy_sklearn_def)
  have 3: "compare_rules_pdc toy_sklearn [u ''a b''] [u ''a b'', u ''c''] = Inr [[True, False]]"
    by (simp add: compare_rules_pdc_def toy_sklearn_def u_def is_space_def split_ws.simps)
  from matcher_fails_on_empty [OF 1 2, of "[]" "[u ''a b'', u ''c'']"]
    matcher_fails_on_empty [OF 1 2, of "[u ''a b'']" "[]"]
    matcher_fails_on_empty [OF 1 2, of "[]" "[]"] 3
  show ?thesis by simp
qed


section \<open>Properties of the extraction\<close>

lemma distinct_set_add: "distinct s \<Longrightarrow> distinct (set_add x s)"
  by (simp add: set_add_def)

lemma distinct_fold:
  assumes "\<And>x s. distinct s \<Longrightarrow> distinct (f x s)"
  shows "distinct s \<Longrightarrow> distinct (fold f xs s)"
  by (induction xs arbitrary: s) (simp_all add: assms)

lemma distinct_sorted_len_desc:
  assumes "\<forall>s. mset (set_order w s) = mset s"
  shows "distinct (sorted_len_desc w s) = distinct s"
proof -
  from assms have "mset (set_order w s) = mset s" by blast
  then have "distinct (set_order w s) = distinct s" by (rule mset_eq_imp_distinct_iff)
  then show ?thesis by (simp add: sorted_len_desc_def)
qed

lemma set_sorted_len_desc:
  assumes "\<forall>s. mset (set_order w s) = mset s"
  shows "set (sorted_len_desc w s) = set s"
proof -
  from assms have "mset (set_order w s) = mset s" by blast
  then have "set (set_order w s) = set s" by (rule mset_eq_setD)
  then show ?thesis by (simp add: sorted_len_desc_def)
qed

lemma sorted_sorted_len_desc:
  "sorted_wrt (\<lambda>a b. length b \<le> length a) (sorted_len_desc w s)"
proof -
  have "sorted (map length (sort_key length (rev (set_order w s))))"
    by (rule sorted_sort_key)
  then have "sorted_wrt (\<lambda>a b. length a \<le> length b) (sort_key length (rev (set_order w s)))"
    by (simp add: sorted_map)
  then show ?thesis
    by (simp add: sorted_len_desc_def sorted_wrt_rev)
qed

lemma distinct_pdc_set:
  "distinct (fold (\<lambda>pattern pdc_list.
           fold (\<lambda>m pdc_list.
               let pdc = strip m
               in if length (split_ws pdc) > 3
                  then set_add (if \<not> endswith_dot pdc then pdc @ [46] else pdc) pdc_list
                  else pdc_list)
             (finditer d pattern text) pdc_list)
         pdc_patterns [])"
  by (intro distinct_fold) (simp_all add: Let_def distinct_set_add)

lemma distinct_rule_set:
  "distinct (fold (\<lambda>pattern rules.
                        fold (\<lambda>m rules. set_add (clean_rule m) rules)
                          (finditer d pattern text) rules)
                      rule_patterns [])"
  by (intro distinct_fold) (simp_all add: distinct_set_add)

lemma distinct_extract_pdc:
  assumes "\<forall>s. mset (set_order w s) = mset s"
  shows "distinct (extract_pdc_from_text w text)"
  unfolding extract_pdc_from_text_def distinct_sorted_len_desc [OF assms]
  by (rule distinct_pdc_set)

lemma distinct_extract_rules:
  assumes "\<forall>s. mset (set_order w s) = mset s"
  shows "distinct (fst (extract_business_rules w text nlp False))"
proof (cases nlp)
  case None
  then show ?thesis
    by (simp add: extract_business_rules_def Let_def distinct_sorted_len_desc [OF assms]
        distinct_rule_set)
next
  case (Some model)
  have "distinct (fold (\<lambda>sent rules.
                       if list_ex (\<lambda>keyword. contains (lower (db w) sent) keyword) rule_keywords
                       then (if length (split_ws sent) > 5 then set_add (clean_rule sent) rules
                             else rules)
                       else rules)
                     (sents model text)
           (fold (\<lambda>pattern rules.
                        fold (\<lambda>m rules. set_add (clean_rule m) rules)
                          (finditer (db w) pattern text) rules)
                      rule_patterns []))"
    by (intro distinct_fold) (simp_all add: distinct_set_add distinct_rule_set)
  with Some show ?thesis
    by (simp add: extract_business_rules_def Let_def distinct_sorted_len_desc [OF assms])
qed

lemma sorted_extract_rules:
  "sorted_wrt (\<lambda>a b. length b \<le> length a) (fst (extract_business_rules w text nlp False))"
  by (cases nlp) (simp_all add: extract_business_rules_def Let_def sorted_sorted_len_desc)

text \<open>
  Claim C8. For every text, and every order in which the set of results is iterated,
  the list that the rule extractor returns in heuristic mode and the list that the
  extractor of control points returns contain no string twice and are sorted by
  length, longest first (nothing is said of strings of the same length).
\<close>

theorem extraction_distinct_sorted:
  assumes "\<forall>s. mset (set_order w s) = mset s"
  shows "distinct (fst (extract_business_rules w text nlp False))
    \<and> sorted_wrt (\<lambda>a b. length b \<le> length a) (fst (extract_business_rules w text nlp False))
    \<and> distinct (extract_pdc_from_text w text')
    \<and> sorted_wrt (\<lambda>a b. length b \<le> length a) (extract_pdc_from_text w text')"
  by (intro conjI distinct_extract_rules distinct_extract_pdc assms sorted_extract_rules)
    (simp add: extract_pdc_from_text_def sorted_sorted_len_desc)

lemmas regex_eval =
  finditer_def finditer_from.simps match_at_def group0_def one_def at_boundary_def is_word_def
  ci_def ci_variants_def ci_extra_def is_lower_simple_def is_upper_simple_def u_def
  strip_def is_space_def endswith_dot_def split_ws.simps

lemma ex_rules:
  "fst (extract_business_rules world0 (u ''Si x alors y. Si x alors y.'') None False)
     = [u ''Si x alors y.'']"
  by (simp add: extract_business_rules_def regex_eval rule_patterns_def rule_pattern1_def
      rule_pattern2_def rule_pattern3_def rule_pattern4_def world0_def latin1_def
      sorted_len_desc_def set_add_def clean_rule_def Let_def)

lemma ex_pdc:
  "extract_pdc_from_text world0 (u ''S'' @ [39] @ u ''assurer que ab est b; S'' @ [39]
          @ u ''assurer que ab est b; Il faut bien s'' @ [39] @ u ''assurer'')
     = [u ''S'' @ [39] @ u ''assurer que ab est b;.'',
        u ''Il faut bien s'' @ [39] @ u ''assurer.'']"
  by (simp add: extract_pdc_from_text_def regex_eval pdc_patterns_def pdc_pattern1_def
      pdc_pattern2_def world0_def latin1_def
      sorted_len_desc_def set_add_def Let_def)

lemma world0_order: "\<forall>s. mset (set_order world0 s) = mset s"
  by (simp add: world0_def)

text \<open>
  A rule repeated twice in the text is returned once; so is a control point, and the
  longer control point comes first.
\<close>

theorem extraction_distinct_sorted_witness:
  "fst (extract_business_rules world0 (u ''Si x alors y. Si x alors y.'') None False)
     = [u ''Si x alors y.'']
   \<and> extract_pdc_from_text world0 (u ''S'' @ [39] @ u ''assurer que ab est b; S'' @ [39]
          @ u ''assurer que ab est b; Il faut bien s'' @ [39] @ u ''assurer'')
     = [u ''S'' @ [39] @ u ''assurer que ab est b;.'',
        u ''Il faut bien s'' @ [39] @ u ''assurer.'']
   \<and> distinct (fst (extract_business_rules world0 (u ''Si x alors y. Si x alors y.'') None False))
   \<and> distinct (extract_pdc_from_text world0 (u ''S'' @ [39] @ u ''assurer que ab est b; S'' @ [39]
          @ u ''assurer que ab est b; Il faut bien s'' @ [39] @ u ''assurer''))
   \<and> sorted_wrt (\<lambda>a b. length b \<le> length a) (extract_pdc_from_text world0 (u ''S'' @ [39] @ u ''assurer que ab est b; S'' @ [39]
          @ u ''assurer que ab est b; Il faut bien s'' @ [39] @ u ''assurer''))"
  using extraction_distinct_sorted [OF world0_order,
      of "u ''Si x alors y. Si x alors y.''" None "u ''S'' @ [39] @ u ''assurer que ab est b; S'' @ [39]
          @ u ''assurer que ab est b; Il faut bien s'' @ [39] @ u ''assurer''"]
    ex_rules ex_pdc
  by blast


section \<open>Soundness of the matcher\<close>

lemma lit_sound:
  "lit s b xs = Some (b', xs') \<Longrightarrow> \<exists>m. xs = m @ xs' \<and> b' = rev m @ b \<and> list_all2 ci s m"
proof (induction s b xs rule: lit.induct)
  case (1 b xs)
  then show ?case by simp
next
  case (2 c cs b)
  then show ?case by simp
next
  case (3 c cs b x xs)
  show ?case
  proof (cases "ci c x")
    case True
    with 3 obtain m where "xs = m @ xs'" "b' = rev m @ x # b" "list_all2 ci cs m" by auto
    with True have "x # xs = (x # m) @ xs' \<and> b' = rev (x # m) @ b \<and> list_all2 ci (c # cs) (x # m)"
      by simp
    then show ?thesis by blast
  next
    case False
    with 3 show ?thesis by simp
  qed
qed

lemma one_sound:
  "one p k b xs g = Some y \<Longrightarrow> \<exists>x xs'. xs = x # xs' \<and> p x \<and> k (x # b) xs' g = Some y"
  by (cases xs) (auto simp: one_def split: if_splits)

lemma lazy_star_sound:
  "lazy_star p k b xs g = Some y \<Longrightarrow>
   \<exists>m xs'. xs = m @ xs' \<and> list_all p m \<and> k (rev m @ b) xs' g = Some y
     \<and> (\<forall>i < length m. k (rev (take i m) @ b) (drop i m @ xs') g = None)"
proof (induction p k b xs g rule: lazy_star.induct)
  case (1 p k b xs g)
  show ?case
  proof (cases "k b xs g")
    case (Some z)
    with 1(2) have "k (rev [] @ b) xs g = Some y" by simp
    then have "xs = [] @ xs \<and> list_all p [] \<and> k (rev [] @ b) xs g = Some y
      \<and> (\<forall>i < length ([]::ustr). k (rev (take i []) @ b) (drop i [] @ xs) g = None)"
      by simp
    then show ?thesis by blast
  next
    case None
    with 1(2) obtain x t where xs: "xs = x # t" and px: "p x"
      and rec: "lazy_star p k (x # b) t g = Some y"
      by (cases xs) (auto split: if_splits)
    from 1(1) [OF None xs px rec] obtain m xs' where m: "t = m @ xs'" "list_all p m"
      "k (rev m @ x # b) xs' g = Some y"
      and mn: "\<forall>i < length m. k (rev (take i m) @ x # b) (drop i m @ xs') g = None"
      by blast
    have "\<forall>i < length (x # m). k (rev (take i (x # m)) @ b) (drop i (x # m) @ xs') g = None"
    proof (intro allI impI)
      fix i assume i: "i < length (x # m)"
      show "k (rev (take i (x # m)) @ b) (drop i (x # m) @ xs') g = None"
      proof (cases i)
        case 0
        with None xs m show ?thesis by simp
      next
        case (Suc j)
        with i mn show ?thesis by simp
      qed
    qed
    with xs px m have "xs = (x # m) @ xs' \<and> list_all p (x # m)
      \<and> k (rev (x # m) @ b) xs' g = Some y
      \<and> (\<forall>i < length (x # m). k (rev (take i (x # m)) @ b) (drop i (x # m) @ xs') g = None)"
      by simp
    then show ?thesis by blast
  qed
qed

lemma greedy_star_sound:
  "greedy_star p k b xs g = Some y \<Longrightarrow>
   \<exists>m xs'. xs = m @ xs' \<and> list_all p m \<and> k (rev m @ b) xs' g = Some y"
proof (induction xs arbitrary: b)
  case Nil
  then have "k b [] g = Some y" by (simp only: greedy_star.simps)
  then show ?case by simp
next
  case (Cons x xs)
  have "(p x \<and> greedy_star p k (x # b) xs g = Some y) \<or> k b (x # xs) g = Some y"
  proof (cases "p x")
    case False
    with Cons.prems show ?thesis by (simp only: greedy_star.simps if_False simp_thms)
  next
    case True
    show ?thesis
    proof (cases "greedy_star p k (x # b) xs g")
      case None
      with True Cons.prems show ?thesis
        by (simp only: greedy_star.simps if_True option.case simp_thms)
    next
      case (Some z)
      with True Cons.prems show ?thesis
        by (simp only: greedy_star.simps if_True option.case simp_thms)
    qed
  qed
  then show ?case
  proof
    assume a: "p x \<and> greedy_star p k (x # b) xs g = Some y"
    then have "greedy_star p k (x # b) xs g = Some y" by (rule conjunct2)
    from Cons.IH [OF this] obtain m xs' where m: "xs = m @ xs'" "list_all p m"
      "k (rev m @ x # b) xs' g = Some y" by blast
    from a have "p x" by (rule conjunct1)
    with m have "x # xs = (x # m) @ xs' \<and> list_all p (x # m)
      \<and> k (rev (x # m) @ b) xs' g = Some y" by simp
    then show ?thesis by blast
  next
    assume "k b (x # xs) g = Some y"
    then have "x # xs = [] @ (x # xs) \<and> list_all p [] \<and> k (rev [] @ b) (x # xs) g = Some y"
      by simp
    then show ?thesis by blast
  qed
qed

lemma rep_sound:
  assumes body: "\<And>k b xs g y. mm k b xs g = Some y \<Longrightarrow>
     \<exists>m xs' g'. xs = m @ xs' \<and> k (rev m @ b) xs' g' = Some y"
  shows "rep mm n k b xs g = Some y \<Longrightarrow>
     \<exists>m xs' g'. xs = m @ xs' \<and> k (rev m @ b) xs' g' = Some y"
proof (induction n arbitrary: b xs g)
  case 0
  then have "mm k b xs g = Some y" by simp
  from body [OF this] show ?case .
next
  case (Suc n)
  let ?k = "\<lambda>b xs g. case (if length xs \<le> n then rep mm n k b xs g else None) of
                    Some y \<Rightarrow> Some y
                  | None \<Rightarrow> k b xs g"
  from Suc.prems have "mm ?k b xs g = Some y" by simp
  from body [OF this] obtain m xs' g' where m: "xs = m @ xs'"
    and k: "?k (rev m @ b) xs' g' = Some y" by blast
  show ?case
  proof (cases "if length xs' \<le> n then rep mm n k (rev m @ b) xs' g' else None")
    case None
    with k have "k (rev m @ b) xs' g' = Some y" by simp
    with m show ?thesis by blast
  next
    case (Some z)
    with k have "rep mm n k (rev m @ b) xs' g' = Some y" by (simp split: if_splits)
    from Suc.IH [OF this] obtain m' xs'' g'' where "xs' = m' @ xs''"
      "k (rev m' @ rev m @ b) xs'' g'' = Some y" by blast
    with m have "xs = (m @ m') @ xs'' \<and> k (rev (m @ m') @ b) xs'' g'' = Some y" by simp
    then show ?thesis by blast
  qed
qed

lemma rmatch_shape:
  "rmatch d r k b xs g = Some y \<Longrightarrow>
   \<exists>m xs' g'. xs = m @ xs' \<and> shape d r m \<and> k (rev m @ b) xs' g' = Some y"
proof (induction r arbitrary: k b xs g y)
  case (Lit s)
  then obtain b' xs' where l: "lit s b xs = Some (b', xs')" and k: "k b' xs' g = Some y"
    by (auto split: option.splits)
  from lit_sound [OF l] k show ?case by auto
next
  case (Cls c)
  then have "one (in_cls d c) k b xs g = Some y" by simp
  from one_sound [OF this] obtain x xs' where "xs = x # xs'" "in_cls d c x"
    "k (x # b) xs' g = Some y" by blast
  then have "xs = [x] @ xs' \<and> shape d (Cls c) [x] \<and> k (rev [x] @ b) xs' g = Some y" by simp
  then show ?case by blast
next
  case Bnd
  then have "k b xs g = Some y" by (simp split: if_splits)
  then have "xs = [] @ xs \<and> shape d Bnd [] \<and> k (rev [] @ b) xs g = Some y" by simp
  then show ?case by blast
next
  case (Seq r1 r2)
  from Seq.prems have "rmatch d r1 (rmatch d r2 k) b xs g = Some y" by simp
  from Seq.IH(1) [OF this] obtain m1 xs1 g1 where 1: "xs = m1 @ xs1" "shape d r1 m1"
    "rmatch d r2 k (rev m1 @ b) xs1 g1 = Some y" by blast
  from Seq.IH(2) [OF 1(3)] obtain m2 xs2 g2 where 2: "xs1 = m2 @ xs2" "shape d r2 m2"
    "k (rev m2 @ rev m1 @ b) xs2 g2 = Some y" by blast
  from 1 2 have "xs = (m1 @ m2) @ xs2 \<and> shape d (Seq r1 r2) (m1 @ m2)
    \<and> k (rev (m1 @ m2) @ b) xs2 g2 = Some y" by auto
  then show ?case by blast
next
  case (Alt r1 r2)
  then have "rmatch d r1 k b xs g = Some y \<or> rmatch d r2 k b xs g = Some y"
    by (simp split: option.splits)
  then show ?case
  proof
    assume "rmatch d r1 k b xs g = Some y"
    from Alt.IH(1) [OF this] show ?thesis by auto
  next
    assume "rmatch d r2 k b xs g = Some y"
    from Alt.IH(2) [OF this] show ?thesis by auto
  qed
next
  case (Star c)
  then have "greedy_star (in_cls d c) k b xs g = Some y" by simp
  from greedy_star_sound [OF this] show ?case by auto
next
  case (Plus c)
  then have "one (in_cls d c) (greedy_star (in_cls d c) k) b xs g = Some y" by simp
  from one_sound [OF this] obtain x t where x: "xs = x # t" "in_cls d c x"
    "greedy_star (in_cls d c) k (x # b) t g = Some y" by blast
  from greedy_star_sound [OF x(3)] obtain m xs' where "t = m @ xs'" "list_all (in_cls d c) m"
    "k (rev m @ x # b) xs' g = Some y" by blast
  with x have "xs = (x # m) @ xs' \<and> shape d (Plus c) (x # m)
    \<and> k (rev (x # m) @ b) xs' g = Some y" by simp
  then show ?case by blast
next
  case (LazyStar c)
  then have "lazy_star (in_cls d c) k b xs g = Some y" by simp
  from lazy_star_sound [OF this] show ?case by auto
next
  case (LazyPlus c)
  then have "one (in_cls d c) (lazy_star (in_cls d c) k) b xs g = Some y" by simp
  from one_sound [OF this] obtain x t where x: "xs = x # t" "in_cls d c x"
    "lazy_star (in_cls d c) k (x # b) t g = Some y" by blast
  from lazy_star_sound [OF x(3)] obtain m xs' where "t = m @ xs'" "list_all (in_cls d c) m"
    "k (rev m @ x # b) xs' g = Some y" by blast
  with x have "xs = (x # m) @ xs' \<and> shape d (LazyPlus c) (x # m)
    \<and> k (rev (x # m) @ b) xs' g = Some y" by simp
  then show ?case by blast
next
  case (Grp r)
  let ?k = "\<lambda>b' xs' g'. k b' xs' (Some (rev (take (length b' - length b) b')))"
  from Grp.prems have "rmatch d r ?k b xs g = Some y" by simp
  from Grp.IH [OF this] obtain m xs' g' where m: "xs = m @ xs'" "shape d r m"
    and k: "?k (rev m @ b) xs' g' = Some y" by blast
  let ?g = "Some (rev (take (length (rev m @ b) - length b) (rev m @ b)))"
  from k have "k (rev m @ b) xs' ?g = Some y" .
  with m have f: "xs = m @ xs' \<and> shape d (Grp r) m \<and> k (rev m @ b) xs' ?g = Some y"
    by (simp only: shape.simps simp_thms)
  show ?case
    by (rule exI [of _ m], rule exI [of _ xs'], rule exI [of _ ?g]) (fact f)
next
  case (PlusG r)
  have body: "\<exists>m xs' g'. xs = m @ xs' \<and> k (rev m @ b) xs' g' = Some y"
    if "rmatch d r k b xs g = Some y" for k :: "'a cont" and b xs g y
  proof -
    from PlusG.IH [OF that] obtain m xs' g' where "xs = m @ xs'"
      "k (rev m @ b) xs' g' = Some y" by blast
    then have "xs = m @ xs' \<and> k (rev m @ b) xs' g' = Some y" by (rule conjI)
    then show ?thesis by (intro exI)
  qed
  from PlusG.prems have r: "rep (rmatch d r) (length xs) k b xs g = Some y" by simp
  have "\<exists>m xs' g'. xs = m @ xs' \<and> k (rev m @ b) xs' g' = Some y"
  proof (rule rep_sound [where mm = "rmatch d r" and n = "length xs" and g = g])
    show "\<exists>m xs' g'. xs = m @ xs' \<and> k (rev m @ b) xs' g' = Some y"
      if "rmatch d r k b xs g = Some y" for k :: "'a cont" and b xs g y
      using that by (rule body)
    show "rep (rmatch d r) (length xs) k b xs g = Some y" by (rule r)
  qed
  then show ?case by (simp only: shape.simps simp_thms)
qed

lemma group0_frame: "group0 b (rev m @ b) = m"
  by (simp add: group0_def)

lemma match_at_shape:
  assumes "match_at d r b xs = Some (b', xs', g)"
  shows "xs = group0 b b' @ xs' \<and> b' = rev (group0 b b') @ b \<and> shape d r (group0 b b')"
proof -
  from assms have "rmatch d r (\<lambda>b' xs' g. Some (b', xs', g)) b xs None = Some (b', xs', g)"
    by (simp only: match_at_def)
  from rmatch_shape [OF this] obtain m xs'' g' where m: "xs = m @ xs''" "shape d r m"
    and k: "Some (rev m @ b, xs'', g') = Some (b', xs', g)"
    by blast
  from k have "b' = rev m @ b" "xs'' = xs'" by simp_all
  with m show ?thesis by (simp add: group0_frame)
qed

lemma finditer_from_elem:
  "m \<in> set (finditer_from d r b xs) \<Longrightarrow>
   \<exists>b0 xs0 b' xs' g. match_at d r b0 xs0 = Some (b', xs', g) \<and> m = group0 b0 b'
      \<and> rev b0 @ xs0 = rev b @ xs"
proof (induction d r b xs rule: finditer_from.induct)
  case (1 d r b xs)
  show ?case
  proof (cases "match_at d r b xs")
    case None
    from "1.prems" have "m \<in> set (case xs of [] \<Rightarrow> [] | x # t \<Rightarrow> finditer_from d r (x # b) t)"
      by (subst (asm) finditer_from.simps) (simp only: None option.case)
    then obtain x t where xs: "xs = x # t" and m: "m \<in> set (finditer_from d r (x # b) t)"
      by (cases xs) simp_all
    from "1.IH"(1) [OF None xs m] obtain b0 xs0 b' xs' g
      where "match_at d r b0 xs0 = Some (b', xs', g)" "m = group0 b0 b'"
        "rev b0 @ xs0 = rev (x # b) @ t" by blast
    with xs have "match_at d r b0 xs0 = Some (b', xs', g) \<and> m = group0 b0 b'
        \<and> rev b0 @ xs0 = rev b @ xs" by simp
    then show ?thesis by (intro exI)
  next
    case (Some res)
    obtain b' xs' g where res: "res = (b', xs', g)" by (cases res) auto
    from Some res have mt: "match_at d r b xs = Some (b', xs', g)" by simp
    have here: ?thesis if "m = group0 b b'"
    proof -
      from mt that have "match_at d r b xs = Some (b', xs', g) \<and> m = group0 b b'
        \<and> rev b @ xs = rev b @ xs" by simp
      then show ?thesis by (intro exI)
    qed
    show ?thesis
    proof (cases "length xs' < length xs")
      case True
      from "1.prems" have "m \<in> set (group0 b b' # finditer_from d r b' xs')"
        by (subst (asm) finditer_from.simps) (simp only: mt option.case prod.case True if_True)
      then have "m = group0 b b' \<or> m \<in> set (finditer_from d r b' xs')" by simp
      then show ?thesis
      proof
        assume "m = group0 b b'"
        then show ?thesis by (rule here)
      next
        assume m: "m \<in> set (finditer_from d r b' xs')"
        have e1: "(b', xs', g) = res" and e2: "(xs', g) = (xs', g)" by (simp_all add: res)
        from "1.IH"(2) [OF Some e1 e2 True m]
        obtain b0 xs0 b'' xs'' g' where *: "match_at d r b0 xs0 = Some (b'', xs'', g')"
          "m = group0 b0 b''" "rev b0 @ xs0 = rev b' @ xs'" by blast
        define m0 where "m0 = group0 b b'"
        from match_at_shape [OF mt] have "xs = m0 @ xs'" and "b' = rev m0 @ b"
          unfolding m0_def by blast+
        then have "rev b' @ xs' = rev b @ xs" by simp
        with * have "match_at d r b0 xs0 = Some (b'', xs'', g') \<and> m = group0 b0 b''
          \<and> rev b0 @ xs0 = rev b @ xs" by simp
        then show ?thesis by (intro exI)
      qed
    next
      case False
      from "1.prems" have "m \<in> set (group0 b b'
          # (case xs of [] \<Rightarrow> [] | x # t \<Rightarrow> finditer_from d r (x # b) t))"
        by (subst (asm) finditer_from.simps) (simp only: mt option.case prod.case False if_False)
      then have "m = group0 b b'
          \<or> m \<in> set (case xs of [] \<Rightarrow> [] | x # t \<Rightarrow> finditer_from d r (x # b) t)"
        by simp
      then show ?thesis
      proof
        assume "m = group0 b b'"
        then show ?thesis by (rule here)
      next
        assume "m \<in> set (case xs of [] \<Rightarrow> [] | x # t \<Rightarrow> finditer_from d r (x # b) t)"
        then obtain x t where xs: "xs = x # t" and m: "m \<in> set (finditer_from d r (x # b) t)"
          by (cases xs) simp_all
        have e1: "(b', xs', g) = res" and e2: "(xs', g) = (xs', g)" by (simp_all add: res)
        from "1.IH"(3) [OF Some e1 e2 False xs m] obtain b0 xs0 b'' xs'' g'
          where "match_at d r b0 xs0 = Some (b'', xs'', g')" "m = group0 b0 b''"
            "rev b0 @ xs0 = rev (x # b) @ t" by blast
        with xs have "match_at d r b0 xs0 = Some (b'', xs'', g') \<and> m = group0 b0 b''
          \<and> rev b0 @ xs0 = rev b @ xs" by simp
        then show ?thesis by (intro exI)
      qed
    qed
  qed
qed

lemma finditer_elem:
  assumes "m \<in> set (finditer d r text)"
  shows "\<exists>b xs'. shape_at d r b m xs' \<and> text = rev b @ m @ xs'"
proof -
  from assms have "m \<in> set (finditer_from d r [] text)" by (simp only: finditer_def)
  from finditer_from_elem [OF this] obtain b xs b' xs' g
    where *: "match_at d r b xs = Some (b', xs', g)" "m = group0 b b'" "rev b @ xs = rev [] @ text"
    by blast
  from match_at_shape [OF *(1)] have "xs = m @ xs'" and "b' = rev m @ b"
    unfolding *(2) [symmetric] by blast+
  with *(1,3) have "match_at d r b (m @ xs') = Some (rev m @ b, xs', g)
      \<and> text = rev b @ m @ xs'"
    by simp
  then have "shape_at d r b m xs' \<and> text = rev b @ m @ xs'"
    unfolding shape_at_def by blast
  then show ?thesis by (intro exI)
qed

section \<open>What the patterns of the control points match\<close>

lemma lazy_until:
  assumes "lazy_star p (one q (\<lambda>b' xs' g. Some (b', xs', g))) b xs g = Some (b', xs', g')"
  shows "\<exists>m t. b' = t # rev m @ b \<and> xs = m @ t # xs' \<and> q t \<and> (\<forall>x \<in> set m. p x \<and> \<not> q x)"
proof -
  let ?K = "\<lambda>b' xs' g. Some (b', xs', g)"
  from lazy_star_sound [OF assms] obtain m xs2 where m: "xs = m @ xs2" "list_all p m"
    and k: "one q ?K (rev m @ b) xs2 g = Some (b', xs', g')"
    and mn: "\<forall>i < length m. one q ?K (rev (take i m) @ b) (drop i m @ xs2) g = None"
    by blast
  from one_sound [OF k] obtain t xs3 where t: "xs2 = t # xs3" "q t"
    and e: "Some (t # rev m @ b, xs3, g) = Some (b', xs', g')" by blast
  from e have b': "b' = t # rev m @ b" and x3: "xs3 = xs'" by simp_all
  have "\<not> q x" if "x \<in> set m" for x
  proof
    assume qx: "q x"
    from that obtain i where i: "i < length m" "m ! i = x" by (auto simp: in_set_conv_nth)
    with mn have "one q ?K (rev (take i m) @ b) (drop i m @ xs2) g = None" by blast
    moreover from i have "drop i m = x # drop (Suc i) m"
      using Cons_nth_drop_Suc [of i m] by simp
    ultimately show False using qx by (simp add: one_def)
  qed
  with m(2) have "\<forall>x \<in> set m. p x \<and> \<not> q x" by (auto simp: list_all_iff)
  with b' m(1) t x3 have "b' = t # rev m @ b \<and> xs = m @ t # xs' \<and> q t
      \<and> (\<forall>x \<in> set m. p x \<and> \<not> q x)" by simp
  then show ?thesis by (intro exI)
qed

lemma lit_last:
  assumes "list_all2 ci s m" and "s \<noteq> []"
  shows "m \<noteq> [] \<and> ci (last s) (last m)"
proof -
  from assms(1) have l: "length s = length m" by (rule list_all2_lengthD)
  with assms(2) have ne: "m \<noteq> []" by auto
  from assms(2) l have "length s - 1 < length s" by (cases s) simp_all
  with assms(1) have "ci (s ! (length s - 1)) (m ! (length s - 1))" by (rule list_all2_nthD)
  with assms(2) ne l show ?thesis by (simp add: last_conv_nth)
qed

lemma ci_letter:
  assumes "ci c x" and "c = 101 \<or> c = 110 \<or> c = 114"
  shows "x \<noteq> 46 \<and> \<not> is_space x"
  using assms
  by (auto simp: ci_def ci_variants_def ci_extra_def is_lower_simple_def is_upper_simple_def
      is_space_def)

lemma shape_lit_ends:
  assumes "shape d (Lit s) m" and "s \<noteq> []" and "last s = 101 \<or> last s = 110 \<or> last s = 114"
  shows "ends_plain m"
proof -
  from assms(1) have "list_all2 ci s m" by simp
  from lit_last [OF this assms(2)] have "m \<noteq> []" "ci (last s) (last m)" by simp_all
  with ci_letter [OF _ assms(3)] show ?thesis by (simp add: ends_plain_def)
qed

lemma ends_plain_append: "ends_plain m2 \<Longrightarrow> ends_plain (m1 @ m2)"
  by (simp add: ends_plain_def)

lemma shape_seq_ends:
  assumes "shape d (Seq r1 r2) m" and "\<And>m2. shape d r2 m2 \<Longrightarrow> ends_plain m2"
  shows "ends_plain m"
proof -
  from assms(1) obtain m1 m2 where "m = m1 @ m2" "shape d r2 m2" by auto
  with assms(2) show ?thesis by (simp add: ends_plain_append)
qed

lemma shape_alt_ends:
  assumes "shape d (Alt r1 r2) m" and "\<And>m. shape d r1 m \<Longrightarrow> ends_plain m"
    and "\<And>m. shape d r2 m \<Longrightarrow> ends_plain m"
  shows "ends_plain m"
  using assms by auto

lemma ends_plain_no_dots: "ends_plain m \<Longrightarrow> trailing_dots m = 0"
  by (rule trailing_dots_0) (simp add: ends_plain_def endswith_dot_def)

lemma pdc_keyword_ends:
  assumes "shape d
     (alts
         [Lit (u ''V'' @ [233] @ u ''rifier''),
          Seq (Lit (u ''S'')) (Seq (Cls (Chars [(39, 39), (39, 39)])) (Lit (u ''assurer''))),
          Lit (u ''Contr'' @ [244] @ u ''ler''),
          Lit (u ''V'' @ [233] @ u ''rification''),
          Lit (u ''Point de contr'' @ [244] @ u ''le'')]) m"
  shows "ends_plain m"
  using assms unfolding alts.simps
  by (elim shape_alt_ends shape_seq_ends shape_lit_ends) (simp_all add: u_def)

lemma pdc_verb_ends:
  assumes "shape d
     (alts
         [Lit (u ''v'' @ [233] @ u ''rifier''),
          Lit (u ''contr'' @ [244] @ u ''ler''),
          Lit (u ''s'' @ [39] @ u ''assurer'')]) m"
  shows "ends_plain m"
  using assms unfolding alts.simps
  by (elim shape_alt_ends shape_lit_ends) (simp_all add: u_def)

lemma lazy_terminated:
  assumes "match_at d (Seq r (Seq Bnd (Seq (LazyStar c) (Cls T)))) b xs = Some (b', xs', g)"
  shows "\<exists>m1 m2 t. b' = t # rev m2 @ rev m1 @ b \<and> shape d r m1 \<and> in_cls d T t
     \<and> (\<forall>x \<in> set m2. \<not> in_cls d T x)"
proof -
  let ?K = "\<lambda>b' xs' g. Some (b', xs', g)"
  let ?L = "lazy_star (in_cls d c) (one (in_cls d T) ?K)"
  let ?y = "Some (b', xs', g)"
  from assms have "rmatch d r (\<lambda>b xs g. if at_boundary d b xs then ?L b xs g else None)
      b xs None = ?y"
    by (simp only: match_at_def rmatch.simps)
  from rmatch_shape [OF this]
  obtain m1 where "\<exists>xs1 g1. xs = m1 @ xs1 \<and> shape d r m1
      \<and> (if at_boundary d (rev m1 @ b) xs1 then ?L (rev m1 @ b) xs1 g1 else None) = ?y" ..
  then obtain xs1 where "\<exists>g1. xs = m1 @ xs1 \<and> shape d r m1
      \<and> (if at_boundary d (rev m1 @ b) xs1 then ?L (rev m1 @ b) xs1 g1 else None) = ?y" ..
  then obtain g1 where c: "xs = m1 @ xs1 \<and> shape d r m1
      \<and> (if at_boundary d (rev m1 @ b) xs1 then ?L (rev m1 @ b) xs1 g1 else None) = ?y" ..
  from c have s: "shape d r m1" by (elim conjE)
  from c have i: "(if at_boundary d (rev m1 @ b) xs1 then ?L (rev m1 @ b) xs1 g1 else None) = ?y"
    by (elim conjE)
  have l: "?L (rev m1 @ b) xs1 g1 = ?y"
  proof (cases "at_boundary d (rev m1 @ b) xs1")
    case True
    with i show ?thesis by (simp only: if_True)
  next
    case False
    with i have "None = ?y" by (simp only: if_False)
    then show ?thesis by (simp only: option.distinct)
  qed
  from lazy_until [OF l] obtain m2 t where "b' = t # rev m2 @ rev m1 @ b" "in_cls d T t"
    "\<forall>x \<in> set m2. in_cls d c x \<and> \<not> in_cls d T x" by blast
  with s have "b' = t # rev m2 @ rev m1 @ b \<and> shape d r m1 \<and> in_cls d T t
     \<and> (\<forall>x \<in> set m2. \<not> in_cls d T x)" by simp
  then show ?thesis by (intro exI)
qed

lemma in_terminators: "in_cls d (Chars [(46, 46), (59, 59)]) x \<longleftrightarrow> x = 46 \<or> x = 59"
  by (auto simp: ci_def ci_variants_def is_lower_simple_def is_upper_simple_def)

lemma pdc1_match:
  assumes "shape_at d pdc_pattern1 b m xs'"
  shows "m \<noteq> [] \<and> \<not> is_space (last m) \<and> trailing_dots m \<le> 1"
proof -
  from assms obtain g where "match_at d pdc_pattern1 b (m @ xs') = Some (rev m @ b, xs', g)"
    unfolding shape_at_def ..
  then have "match_at d (Seq (alts
         [Lit (u ''V'' @ [233] @ u ''rifier''),
          Seq (Lit (u ''S'')) (Seq (Cls (Chars [(39, 39), (39, 39)])) (Lit (u ''assurer''))),
          Lit (u ''Contr'' @ [244] @ u ''ler''),
          Lit (u ''V'' @ [233] @ u ''rification''),
          Lit (u ''Point de contr'' @ [244] @ u ''le'')])
       (Seq Bnd (Seq (LazyStar Dot) (Cls (Chars [(46, 46), (59, 59)])))))
       b (m @ xs') = Some (rev m @ b, xs', g)"
    by (simp only: pdc_pattern1_def seqs.simps)
  from lazy_terminated [OF this] obtain m1 m2 t where e: "rev m @ b = t # rev m2 @ rev m1 @ b"
    and kw: "shape d (alts
         [Lit (u ''V'' @ [233] @ u ''rifier''),
          Seq (Lit (u ''S'')) (Seq (Cls (Chars [(39, 39), (39, 39)])) (Lit (u ''assurer''))),
          Lit (u ''Contr'' @ [244] @ u ''ler''),
          Lit (u ''V'' @ [233] @ u ''rification''),
          Lit (u ''Point de contr'' @ [244] @ u ''le'')]) m1"
    and t: "in_cls d (Chars [(46, 46), (59, 59)]) t"
    and m2: "\<forall>x \<in> set m2. \<not> in_cls d (Chars [(46, 46), (59, 59)]) x"
    by blast
  from e have "rev m = rev (m1 @ m2 @ [t])" by simp
  then have m: "m = (m1 @ m2) @ [t]" by (simp only: rev_is_rev_conv append_assoc)
  from t have t': "t = 46 \<or> t = 59" by (simp only: in_terminators)
  from pdc_keyword_ends [OF kw] have k1: "m1 \<noteq> []" "last m1 \<noteq> 46" by (simp_all add: ends_plain_def)
  have "last (m1 @ m2) \<noteq> 46"
  proof (cases "m2 = []")
    case True
    with k1 show ?thesis by simp
  next
    case False
    then have "last m2 \<in> set m2" by simp
    with m2 have "\<not> in_cls d (Chars [(46, 46), (59, 59)]) (last m2)" by blast
    then have "last m2 \<noteq> 46" by (simp only: in_terminators) simp
    with False show ?thesis by simp
  qed
  with k1 have "\<not> endswith_dot (m1 @ m2)" by (simp add: endswith_dot_def)
  then have z: "trailing_dots (m1 @ m2) = 0" by (rule trailing_dots_0)
  define m12 where "m12 = m1 @ m2"
  from m z have "m = m12 @ [t]" and "trailing_dots m12 = 0" by (simp_all add: m12_def)
  with t' show ?thesis
    by (auto simp: trailing_dots_snoc is_space_def)
qed

lemma pdc2_match:
  assumes "shape_at d pdc_pattern2 b m xs'"
  shows "m \<noteq> [] \<and> \<not> is_space (last m) \<and> trailing_dots m \<le> 1"
proof -
  from assms obtain g where mt: "match_at d pdc_pattern2 b (m @ xs') = Some (rev m @ b, xs', g)"
    unfolding shape_at_def ..
  from match_at_shape [OF mt] have "shape d pdc_pattern2 (group0 b (rev m @ b))"
    by (elim conjE)
  then have "shape d pdc_pattern2 m" by (simp only: group0_frame)
  then have "ends_plain m"
    unfolding pdc_pattern2_def seqs.simps
    by (elim shape_seq_ends pdc_verb_ends)
  then show ?thesis
    using ends_plain_no_dots [of m] by (simp add: ends_plain_def)
qed

section \<open>The form of the extracted control points\<close>

lemma strip_plain_end:
  assumes "m \<noteq> []" and "\<not> is_space (last m)"
  shows "strip m = dropWhile is_space m \<and> strip m \<noteq> []"
proof -
  let ?a = "dropWhile is_space m"
  from assms have "last m \<in> set m" "\<not> is_space (last m)" by simp_all
  then have ne: "?a \<noteq> []" by (auto simp: dropWhile_eq_Nil_conv)
  have "m = takeWhile is_space m @ ?a" by simp
  with ne have "last m = last ?a" by (metis last_appendR)
  with assms(2) ne have "\<not> is_space (hd (rev ?a))" by (simp add: hd_rev)
  with ne have "dropWhile is_space (rev ?a) = rev ?a" by (cases "rev ?a") simp_all
  with ne show ?thesis by (simp add: strip_def)
qed

lemma trailing_dots_suffix: "trailing_dots ys \<le> trailing_dots (xs @ ys)"
proof (cases "\<forall>x \<in> set (rev ys). x = 46")
  case True
  then have "takeWhile (\<lambda>c. c = 46) (rev ys @ rev xs) = rev ys @ takeWhile (\<lambda>c. c = 46) (rev xs)"
    by (intro takeWhile_append2) simp
  moreover have "length (takeWhile (\<lambda>c. c = 46) (rev ys)) \<le> length ys"
    using length_takeWhile_le [of "\<lambda>c. c = 46" "rev ys"] by simp
  ultimately show ?thesis by (simp add: trailing_dots_def)
next
  case False
  then obtain x where "x \<in> set (rev ys)" "x \<noteq> 46" by blast
  then have "takeWhile (\<lambda>c. c = 46) (rev ys @ rev xs) = takeWhile (\<lambda>c. c = 46) (rev ys)"
    by (intro takeWhile_append1)
  then show ?thesis by (simp add: trailing_dots_def)
qed

lemma trailing_dots_dropWhile: "trailing_dots (dropWhile P m) \<le> trailing_dots m"
  using trailing_dots_suffix [of "dropWhile P m" "takeWhile P m"] by simp

lemma split_ws_snoc:
  "\<not> is_space c \<Longrightarrow> length (split_ws s) \<le> length (split_ws (s @ [c]))"
proof (induction s rule: split_ws.induct)
  case (1 s)
  show ?case
  proof (cases "dropWhile is_space s")
    case Nil
    have "split_ws s = []" by (subst split_ws.simps) (simp only: Nil list.case)
    then show ?thesis by simp
  next
    case (Cons d ds)
    have "d \<in> set (dropWhile is_space s)" by (simp add: Cons)
    then have d: "d \<in> set s" by (rule set_dropWhileD)
    have nd: "\<not> is_space d" using hd_dropWhile [of is_space s] by (simp add: Cons)
    from d nd have "dropWhile is_space (s @ [c]) = dropWhile is_space s @ [c]"
      by (rule dropWhile_append1)
    then have a: "dropWhile is_space (s @ [c]) = d # ds @ [c]" by (simp only: Cons append_Cons)
    let ?n = "\<lambda>x. \<not> is_space x"
    have l: "split_ws s = (d # takeWhile ?n ds) # split_ws (dropWhile ?n ds)"
      by (subst split_ws.simps) (simp only: Cons list.case)
    have r: "split_ws (s @ [c])
        = (d # takeWhile ?n (ds @ [c])) # split_ws (dropWhile ?n (ds @ [c]))"
      by (subst split_ws.simps) (simp only: a list.case append_Cons)
    show ?thesis
    proof (cases "\<forall>x \<in> set ds. ?n x")
      case True
      then have "dropWhile ?n ds = []" by simp
      then have "split_ws (dropWhile ?n ds) = []"
        by (subst split_ws.simps) (simp only: dropWhile.simps list.case)
      with l r show ?thesis by simp
    next
      case False
      then obtain x where "x \<in> set ds" "\<not> ?n x" by blast
      then have "dropWhile ?n (ds @ [c]) = dropWhile ?n ds @ [c]" by (intro dropWhile_append1)
      with l r "1.IH" [OF Cons "1.prems"] show ?thesis by simp
    qed
  qed
qed

lemma set_add_subset: "set (set_add x s) \<subseteq> insert x (set s)"
  by (auto simp: set_add_def)

lemma fold_subset:
  assumes "\<And>x s. set (f x s) \<subseteq> set s \<union> G x"
  shows "set (fold f xs s) \<subseteq> set s \<union> (\<Union>x \<in> set xs. G x)"
proof (induction xs arbitrary: s)
  case Nil
  show ?case by simp
next
  case (Cons x xs)
  have "set (fold f xs (f x s)) \<subseteq> set (f x s) \<union> (\<Union>x \<in> set xs. G x)" by (rule Cons.IH)
  with assms [of x s] show ?case by auto
qed

lemma pdc_final:
  assumes m: "m \<noteq> [] \<and> \<not> is_space (last m) \<and> trailing_dots m \<le> 1"
    and w: "3 < length (split_ws (strip m))"
    and p: "p = (if \<not> endswith_dot (strip m) then strip m @ [46] else strip m)"
  shows "3 < length (split_ws p) \<and> trimmed p \<and> endswith_dot p \<and> trailing_dots p = 1
     \<and> (\<exists>pre. m = pre @ strip m)"
proof -
  from m have "m \<noteq> []" and "\<not> is_space (last m)" by simp_all
  from strip_plain_end [OF this] have s: "strip m = dropWhile is_space m"
    and ne: "strip m \<noteq> []" by blast+
  have t: "trailing_dots (strip m) \<le> 1"
    using m trailing_dots_dropWhile [of is_space m] by (simp add: s)
  have "m = takeWhile is_space m @ strip m" by (simp add: s)
  then have sub: "\<exists>pre. m = pre @ strip m" ..
  show ?thesis
  proof (cases "endswith_dot (strip m)")
    case True
    with p have "p = strip m" by simp
    moreover from True t have "trailing_dots (strip m) = 1"
      using trailing_dots_pos [of "strip m"] by simp
    ultimately show ?thesis using w True sub by (simp add: trimmed_strip)
  next
    case False
    with p have pe: "p = strip m @ [46]" by simp
    have "length (split_ws (strip m)) \<le> length (split_ws (strip m @ [46]))"
      by (rule split_ws_snoc) simp
    with w have "3 < length (split_ws p)" by (simp add: pe)
    moreover have "trimmed p" unfolding pe by (intro trimmed_snoc_dot trimmed_strip)
    moreover have "endswith_dot p" by (simp add: pe endswith_dot_def)
    moreover from False have "trailing_dots p = 1"
      by (simp add: pe trailing_dots_snoc trailing_dots_0)
    ultimately show ?thesis using sub by simp
  qed
qed

lemma extract_pdc_elem:
  assumes "\<forall>s. mset (set_order w s) = mset s"
    and "p \<in> set (extract_pdc_from_text w text)"
  shows "\<exists>r \<in> set pdc_patterns. \<exists>m \<in> set (finditer (db w) r text).
     3 < length (split_ws (strip m))
     \<and> p = (if \<not> endswith_dot (strip m) then strip m @ [46] else strip m)"
proof -
  let ?G = "\<lambda>m. {p. 3 < length (split_ws (strip m))
     \<and> p = (if \<not> endswith_dot (strip m) then strip m @ [46] else strip m)}"
  let ?f = "\<lambda>m pdc_list.
               let pdc = strip m
               in if length (split_ws pdc) > 3
                  then set_add (if \<not> endswith_dot pdc then pdc @ [46] else pdc) pdc_list
                  else pdc_list"
  let ?H = "\<lambda>r. \<Union>m \<in> set (finditer (db w) r text). ?G m"
  have inner: "set (?f m s) \<subseteq> set s \<union> ?G m" for m s
    using set_add_subset [of "if \<not> endswith_dot (strip m) then strip m @ [46] else strip m" s]
    by (auto simp: Let_def)
  have outer: "set (fold ?f (finditer (db w) r text) s) \<subseteq> set s \<union> ?H r" for r s
    by (rule fold_subset) (rule inner)
  have sub: "set (fold (\<lambda>pattern pdc_list. fold ?f (finditer (db w) pattern text) pdc_list)
           pdc_patterns []) \<subseteq> set [] \<union> (\<Union>r \<in> set pdc_patterns. ?H r)"
    by (rule fold_subset) (rule outer)
  from assms(2) have "p \<in> set (fold (\<lambda>pattern pdc_list.
           fold ?f (finditer (db w) pattern text) pdc_list) pdc_patterns [])"
    unfolding extract_pdc_from_text_def set_sorted_len_desc [OF assms(1)] .
  with sub have "p \<in> set [] \<union> (\<Union>r \<in> set pdc_patterns. ?H r)" by (rule subsetD)
  then have "p \<in> (\<Union>r \<in> set pdc_patterns. ?H r)"
    by (simp only: list.set Un_empty_left)
  then obtain r where r: "r \<in> set pdc_patterns" and "p \<in> ?H r" by (rule UN_E)
  then obtain m where m: "m \<in> set (finditer (db w) r text)" and "p \<in> ?G m" by (elim UN_E)
  then have "3 < length (split_ws (strip m))
     \<and> p = (if \<not> endswith_dot (strip m) then strip m @ [46] else strip m)"
    by (simp only: mem_Collect_eq)
  with r m show ?thesis by (intro bexI)
qed

text \<open>
  Claim C5, as amended. For every text and every iteration order of the set, every
  string that the extractor of control points returns has more than three words, is
  trimmed, and ends with exactly one period. Its whitespace is not normalized: the
  string is a piece of the text as it stands there, or such a piece with a period
  appended.
\<close>

theorem extracted_pdc_form:
  assumes "\<forall>s. mset (set_order w s) = mset s"
    and "p \<in> set (extract_pdc_from_text w text)"
  shows "3 < length (split_ws p) \<and> trimmed p \<and> endswith_dot p \<and> trailing_dots p = 1
     \<and> (\<exists>pre q post. text = pre @ q @ post \<and> (p = q \<or> p = q @ [46]))"
proof -
  from extract_pdc_elem [OF assms] obtain r m where r: "r \<in> set pdc_patterns"
    and m: "m \<in> set (finditer (db w) r text)"
    and w: "3 < length (split_ws (strip m))"
    and p: "p = (if \<not> endswith_dot (strip m) then strip m @ [46] else strip m)"
    by blast
  from finditer_elem [OF m] obtain b xs' where sh: "shape_at (db w) r b m xs'"
    and tx: "text = rev b @ m @ xs'" by blast
  from r have "r = pdc_pattern1 \<or> r = pdc_pattern2" by (simp add: pdc_patterns_def)
  with sh have "m \<noteq> [] \<and> \<not> is_space (last m) \<and> trailing_dots m \<le> 1"
    using pdc1_match pdc2_match by blast
  from pdc_final [OF this w p] obtain pre where f: "3 < length (split_ws p)" "trimmed p"
    "endswith_dot p" "trailing_dots p = 1" and pre: "m = pre @ strip m" by blast
  from tx pre have "text = (rev b @ pre) @ strip m @ xs'" by simp
  moreover from p have "p = strip m \<or> p = strip m @ [46]" by (simp split: if_splits)
  ultimately have "\<exists>pre q post. text = pre @ q @ post \<and> (p = q \<or> p = q @ [46])" by blast
  with f show ?thesis by simp
qed

text \<open>
  A control point that ends with a semicolon in the text: the period is appended, and
  the string has five words and one trailing period.
\<close>

theorem extracted_pdc_form_witness:
  "(u ''S'' @ [39] @ u ''assurer que ab est b;.'') \<in> set (extract_pdc_from_text world0 (u ''S'' @ [39] @ u ''assurer que ab est b; S'' @ [39]
          @ u ''assurer que ab est b; Il faut bien s'' @ [39] @ u ''assurer''))
   \<and> 3 < length (split_ws ((u ''S'' @ [39] @ u ''assurer que ab est b;.'')))
   \<and> trimmed ((u ''S'' @ [39] @ u ''assurer que ab est b;.''))
   \<and> trailing_dots ((u ''S'' @ [39] @ u ''assurer que ab est b;.'')) = 1"
proof -
  have mem: "(u ''S'' @ [39] @ u ''assurer que ab est b;.'') \<in> set (extract_pdc_from_text world0 (u ''S'' @ [39] @ u ''assurer que ab est b; S'' @ [39]
          @ u ''assurer que ab est b; Il faut bien s'' @ [39] @ u ''assurer''))"
    by (simp only: ex_pdc) simp
  from extracted_pdc_form [OF world0_order mem] mem show ?thesis by blast
qed

text \<open>
  Claim C5 as stated fails: two spaces between words of a control point are returned as
  two spaces.
\<close>

theorem extracted_pdc_spaces_counterexample:
  "extract_pdc_from_text world0 (u ''S'' @ [39] @ u ''assurer  que a  est b.'') = [u ''S'' @ [39] @ u ''assurer  que a  est b.'']
   \<and> \<not> collapsed (u ''S'' @ [39] @ u ''assurer  que a  est b.'')"
  by (simp add: extract_pdc_from_text_def regex_eval pdc_patterns_def pdc_pattern1_def
      pdc_pattern2_def world0_def latin1_def sorted_len_desc_def set_add_def Let_def)
end
